theory Spec2Isabelle
  imports Complex_Main "HOL-Library.Log_Nat" "HOL-Library.Product_Lexorder"
begin

section \<open>Values and errors\<close>

text \<open>
  \<^verbatim>\<open>count_first_digits\<close> dispatches on the run-time type of each value of the series:
  \<^verbatim>\<open>isinstance(value, (int, float))\<close>, then \<^verbatim>\<open>isinstance(value, str)\<close>, then anything else.
  A Python \<^verbatim>\<open>bool\<close> is an \<^verbatim>\<open>int\<close> for \<^verbatim>\<open>isinstance\<close>, so it takes the first branch.

  The counter never computes with a float, it only prints it. A float is therefore given by
  what \<^verbatim>\<open>repr\<close> prints from: its sign, the shortest digit string that reads back as the same
  float (as a number, so without leading zeros) and the position of the decimal point relative
  to the first of these digits. \<^verbatim>\<open>0.0456\<close> is \<open>Finite False 456 (-1)\<close>, \<^verbatim>\<open>1234.5\<close> is
  \<open>Finite False 12345 4\<close>, \<^verbatim>\<open>0.0\<close> is \<open>Finite False 0 1\<close>.

  Strings are lists of characters with codes below 256; among these \<^verbatim>\<open>int\<close> accepts exactly
  the ASCII digits as a one-character literal.
\<close>

datatype pyfloat =
    Finite bool nat int
  | Infinity bool
  | NaN

datatype pyvalue =
    PyInt int
  | PyBool bool
  | PyFloat pyfloat
  | PyStr string
  | PyOther string

datatype error =
    WrongDataFormat string
  | InvalidLiteral string
  | KeyError int
  | IndexError
  | OverflowError
  | NanToInteger
  | BroadcastError
  | SumMismatch

section \<open>The built-ins \<^verbatim>\<open>str\<close> and \<^verbatim>\<open>int\<close>\<close>

definition digit_char :: "nat \<Rightarrow> char" where
  "digit_char d = ''0123456789'' ! (d mod 10)"

fun str_nat :: "nat \<Rightarrow> string" where
  "str_nat n = (if n < 10 then [digit_char n] else str_nat (n div 10) @ [digit_char (n mod 10)])"

declare str_nat.simps [simp del]

definition str_int :: "int \<Rightarrow> string" where
  "str_int i = (if i < 0 then CHR ''-'' # str_nat (nat (- i)) else str_nat (nat i))"

text \<open>
  \<^verbatim>\<open>repr\<close> of a finite float: fixed notation when the decimal point position \<open>dp\<close> satisfies
  \<open>-4 < dp \<le> 16\<close>, otherwise scientific notation with an exponent of at least two digits.
\<close>

definition str_fixed :: "string \<Rightarrow> int \<Rightarrow> string" where
  "str_fixed ds dp =
     (if dp \<le> 0 then ''0.'' @ replicate (nat (- dp)) CHR ''0'' @ ds
      else if int (length ds) \<le> dp then ds @ replicate (nat dp - length ds) CHR ''0'' @ ''.0''
      else take (nat dp) ds @ ''.'' @ drop (nat dp) ds)"

definition str_exponent :: "int \<Rightarrow> string" where
  "str_exponent e =
     (if e < 0 then ''-'' else ''+'') @
     (if \<bar>e\<bar> < 10 then ''0'' else '''') @ str_nat (nat \<bar>e\<bar>)"

definition str_sci :: "string \<Rightarrow> int \<Rightarrow> string" where
  "str_sci ds dp =
     take 1 ds @ (if 1 < length ds then ''.'' @ drop 1 ds else '''') @ ''e'' @ str_exponent (dp - 1)"

fun str_float :: "pyfloat \<Rightarrow> string" where
  "str_float (Finite neg m dp) =
     (if neg then ''-'' else '''') @
     (if - 4 < dp \<and> dp \<le> 16 then str_fixed (str_nat m) dp else str_sci (str_nat m) dp)"
| "str_float (Infinity neg) = (if neg then ''-inf'' else ''inf'')"
| "str_float NaN = ''nan''"

definition digit_value :: "char \<Rightarrow> int option" where
  "digit_value c = map_of (zip ''0123456789'' [0, 1, 2, 3, 4, 5, 6, 7, 8, 9]) c"

text \<open>\<^verbatim>\<open>int(s[0])\<close>: indexing an empty string raises, a non-digit is an invalid literal.\<close>

definition int_of_first_char :: "string \<Rightarrow> error + int" where
  "int_of_first_char s =
     (case s of
        [] \<Rightarrow> Inl IndexError
      | c # _ \<Rightarrow> (case digit_value c of None \<Rightarrow> Inl (InvalidLiteral [c]) | Some d \<Rightarrow> Inr d))"

section \<open>\<^verbatim>\<open>count_first_digits\<close>\<close>

text \<open>
  Lines 61 to 66: the value of the local \<^verbatim>\<open>first_digit\<close>, or the exception raised on the way.
\<close>

fun first_digit :: "pyvalue \<Rightarrow> error + int" where
  "first_digit (PyInt i) = int_of_first_char (str_int i)"
| "first_digit (PyBool b) = int_of_first_char (if b then ''True'' else ''False'')"
| "first_digit (PyFloat x) = int_of_first_char (str_float x)"
| "first_digit (PyStr s) = int_of_first_char s"
| "first_digit (PyOther ty) = Inl (WrongDataFormat ty)"

text \<open>
  The dictionary \<^verbatim>\<open>first_digits\<close> as an association list in insertion order.
  \<^verbatim>\<open>d[k] += 1\<close> reads \<^verbatim>\<open>d[k]\<close> first, which raises \<^verbatim>\<open>KeyError\<close> for a key that is absent.
\<close>

fun dict_incr :: "int \<Rightarrow> (int \<times> int) list \<Rightarrow> error + (int \<times> int) list" where
  "dict_incr k [] = Inl (KeyError k)"
| "dict_incr k ((k', c) # d) =
     (if k = k' then Inr ((k', c + 1) # d)
      else (case dict_incr k d of Inl e \<Rightarrow> Inl e | Inr d' \<Rightarrow> Inr ((k', c) # d')))"

text \<open>
  The objects the call can reach: the caller's series and the local dictionary.
\<close>

record frame =
  pandas_series :: "pyvalue list"
  first_digits :: "(int \<times> int) list"

definition loop_body :: "pyvalue \<Rightarrow> frame \<Rightarrow> error + frame" where
  "loop_body v s =
     (case first_digit v of
        Inl e \<Rightarrow> Inl e
      | Inr d \<Rightarrow>
          (case dict_incr d (first_digits s) of
             Inl e \<Rightarrow> Inl e
           | Inr fd \<Rightarrow> Inr (s\<lparr>first_digits := fd\<rparr>)))"

text \<open>The \<^verbatim>\<open>for\<close> loop: the frame when it stops, and the exception that stopped it, if any.\<close>

fun for_values :: "pyvalue list \<Rightarrow> frame \<Rightarrow> frame \<times> error option" where
  "for_values [] s = (s, None)"
| "for_values (v # vs) s =
     (case loop_body v s of Inl e \<Rightarrow> (s, Some e) | Inr s' \<Rightarrow> for_values vs s')"

text \<open>
  The call: its outcome, and the caller's series as the call leaves it.
\<close>

definition call_count_first_digits :: "pyvalue list \<Rightarrow> (error + int list) \<times> pyvalue list" where
  "call_count_first_digits xs =
     (let s0 = \<lparr>pandas_series = xs, first_digits = map (\<lambda>i. (i, 0)) [1..9]\<rparr>;
          (s, r) = for_values (pandas_series s0) s0
      in ((case r of Some e \<Rightarrow> Inl e | None \<Rightarrow> Inr (map snd (sort (first_digits s)))),
          pandas_series s))"

definition count_first_digits :: "pyvalue list \<Rightarrow> error + int list" where
  "count_first_digits xs = fst (call_count_first_digits xs)"

text \<open>A value the loop body gets past: its first character is one of the keys \<open>1\<close> to \<open>9\<close>.\<close>

definition counted :: "pyvalue \<Rightarrow> bool" where
  "counted v = (case first_digit v of Inl _ \<Rightarrow> False | Inr d \<Rightarrow> 1 \<le> d \<and> d \<le> 9)"

section \<open>Floats that are computed with\<close>

text \<open>
  \<^verbatim>\<open>get_expected_counts\<close> and the chi-squared test compute with floats. There a float is its
  value: a rational number (every finite binary64 number is one) or one of the special values.
  The sign of a zero is not modelled: every zero is \<open>+0.0\<close>.
\<close>

datatype double = Double rat | PosInf | NegInf | NotANumber

text \<open>\<open>\<lfloor>log\<^sub>2 x\<rfloor>\<close> for a positive rational \<open>x\<close>.\<close>

definition ilog2 :: "rat \<Rightarrow> int" where
  "ilog2 x = (if 1 \<le> x then bitlen \<lfloor>x\<rfloor> - 1 else - bitlen (\<lceil>1 / x\<rceil> - 1))"

definition round_half_even :: "rat \<Rightarrow> int" where
  "round_half_even x =
     (let f = \<lfloor>x\<rfloor>; r = x - of_int f
      in if r < 1 / 2 then f else if 1 / 2 < r then f + 1 else if even f then f else f + 1)"

text \<open>
  Rounding to binary64, to nearest with ties to even: 53 significant bits, and no bit below
  \<open>2\<^sup>-\<^sup>1\<^sup>0\<^sup>7\<^sup>4\<close>. A result of magnitude \<open>2\<^sup>1\<^sup>0\<^sup>2\<^sup>4\<close> or more has no finite binary64 value.
\<close>

definition round_double :: "rat \<Rightarrow> rat" where
  "round_double x =
     (if x = 0 then 0
      else let q = max (ilog2 \<bar>x\<bar> - 52) (- 1074)
           in of_int (round_half_even (x / 2 powi q)) * 2 powi q)"

definition to_double :: "rat \<Rightarrow> double" where
  "to_double x =
     (let r = round_double x
      in if 2 ^ 1024 \<le> r then PosInf else if r \<le> - (2 ^ 1024) then NegInf else Double r)"

text \<open>
  \<^verbatim>\<open>int * float\<close> converts the \<^verbatim>\<open>int\<close> first, which raises \<^verbatim>\<open>OverflowError\<close> (int too large to
  convert to float) instead of giving an infinity.
\<close>

definition float_of_int :: "int \<Rightarrow> error + double" where
  "float_of_int n =
     (let r = round_double (of_int n)
      in if 2 ^ 1024 \<le> \<bar>r\<bar> then Inl OverflowError else Inr (Double r))"

fun sign_of :: "double \<Rightarrow> rat" where
  "sign_of (Double x) = sgn x"
| "sign_of PosInf = 1"
| "sign_of NegInf = - 1"
| "sign_of NotANumber = 0"

definition inf_of_sign :: "rat \<Rightarrow> double" where
  "inf_of_sign s = (if s = 0 then NotANumber else if 0 < s then PosInf else NegInf)"

fun float_neg :: "double \<Rightarrow> double" where
  "float_neg (Double x) = Double (- x)"
| "float_neg PosInf = NegInf"
| "float_neg NegInf = PosInf"
| "float_neg NotANumber = NotANumber"

fun float_add :: "double \<Rightarrow> double \<Rightarrow> double" where
  "float_add (Double x) (Double y) = to_double (x + y)"
| "float_add NotANumber b = NotANumber"
| "float_add a NotANumber = NotANumber"
| "float_add PosInf NegInf = NotANumber"
| "float_add NegInf PosInf = NotANumber"
| "float_add PosInf b = PosInf"
| "float_add a PosInf = PosInf"
| "float_add NegInf b = NegInf"
| "float_add a NegInf = NegInf"

definition float_sub :: "double \<Rightarrow> double \<Rightarrow> double" where
  "float_sub a b = float_add a (float_neg b)"

fun float_mul :: "double \<Rightarrow> double \<Rightarrow> double" where
  "float_mul (Double x) (Double y) = to_double (x * y)"
| "float_mul NotANumber b = NotANumber"
| "float_mul a NotANumber = NotANumber"
| "float_mul a b = inf_of_sign (sign_of a * sign_of b)"

text \<open>
  Division does not raise on a zero divisor: a nonzero number over zero is an infinity, zero
  over zero is nan.
\<close>

fun float_div :: "double \<Rightarrow> double \<Rightarrow> double" where
  "float_div (Double x) (Double y) = (if y = 0 then inf_of_sign (sgn x) else to_double (x / y))"
| "float_div NotANumber b = NotANumber"
| "float_div a NotANumber = NotANumber"
| "float_div (Double x) b = Double 0"
| "float_div a (Double y) = inf_of_sign (sign_of a * (if y < 0 then - 1 else 1))"
| "float_div a b = NotANumber"

text \<open>
  \<^verbatim>\<open>round(x)\<close> for a float \<open>x\<close>: to the nearest integer, a tie to the even one; an infinity
  raises \<^verbatim>\<open>OverflowError\<close>, nan raises \<^verbatim>\<open>ValueError\<close>.
\<close>

fun py_round :: "double \<Rightarrow> error + int" where
  "py_round (Double y) = Inr (round_half_even y)"
| "py_round PosInf = Inl OverflowError"
| "py_round NegInf = Inl OverflowError"
| "py_round NotANumber = Inl NanToInteger"

text \<open>Rounding a tie away from zero, the other common reading of rounding half.\<close>

definition round_half_away :: "rat \<Rightarrow> int" where
  "round_half_away x = (if 0 \<le> x then \<lfloor>x + 1 / 2\<rfloor> else - \<lfloor>- x + 1 / 2\<rfloor>)"

section \<open>\<^verbatim>\<open>get_expected_counts\<close>\<close>

text \<open>The float literals of line 32, each the binary64 number nearest to the decimal written.\<close>

definition BENFORD_PROPS :: "double list" where
  "BENFORD_PROPS =
     map to_double
       [301 / 1000, 176 / 1000, 125 / 1000, 97 / 1000, 79 / 1000, 67 / 1000, 58 / 1000,
        51 / 1000, 46 / 1000]"

text \<open>A list comprehension whose element expression may raise: the first exception wins.\<close>

fun list_results :: "(error + 'a) list \<Rightarrow> error + 'a list" where
  "list_results [] = Inr []"
| "list_results (r # rs) =
     (case r of
        Inl e \<Rightarrow> Inl e
      | Inr x \<Rightarrow> (case list_results rs of Inl e \<Rightarrow> Inl e | Inr xs \<Rightarrow> Inr (x # xs)))"

definition get_expected_counts :: "int \<Rightarrow> error + int list" where
  "get_expected_counts n_observations =
     list_results
       (map (\<lambda>prop.
               case float_of_int n_observations of
                 Inl e \<Rightarrow> Inl e
               | Inr x \<Rightarrow> py_round (float_mul x prop))
          BENFORD_PROPS)"

section \<open>\<^verbatim>\<open>chi_squared_test\<close>\<close>

text \<open>
  \<^verbatim>\<open>chi_squared_test\<close> only calls \<^verbatim>\<open>scipy.stats.chisquare(actual, expected)\<close> and returns its two
  results. The library function is not part of the repository; what follows is its behaviour.
  The two sequences become float arrays (here: lists of \<open>double\<close>; an integer count is the float
  of the same value) and are broadcast against each other. The library then compares the two
  sums and raises \<^verbatim>\<open>ValueError\<close> when their relative difference exceeds \<open>1e-8\<close>. Otherwise the
  terms \<^verbatim>\<open>(f_obs - f_exp)**2 / f_exp\<close> are computed element by element in float arithmetic,
  which signals a division by zero with a warning and not with an exception, and are summed;
  the p-value is the chi-squared upper tail of the statistic for \<open>k - 1\<close> degrees of freedom,
  \<open>k\<close> the number of terms.
\<close>

fun float_abs :: "double \<Rightarrow> double" where
  "float_abs (Double x) = Double \<bar>x\<bar>"
| "float_abs PosInf = PosInf"
| "float_abs NegInf = PosInf"
| "float_abs NotANumber = NotANumber"

text \<open>The comparison \<open>a < b\<close> of two floats: false as soon as one of them is nan.\<close>

fun float_less :: "double \<Rightarrow> double \<Rightarrow> bool" where
  "float_less (Double x) (Double y) = (x < y)"
| "float_less NotANumber b = False"
| "float_less a NotANumber = False"
| "float_less a NegInf = False"
| "float_less NegInf b = True"
| "float_less PosInf b = False"
| "float_less a PosInf = True"

text \<open>\<^verbatim>\<open>np.minimum\<close>: the smaller of the two, nan as soon as one of them is nan.\<close>

definition float_min :: "double \<Rightarrow> double \<Rightarrow> double" where
  "float_min a b =
     (if a = NotANumber \<or> b = NotANumber then NotANumber else if float_less b a then b else a)"

text \<open>
  The sum of a float array is NumPy's pairwise summation. Fewer than 8 elements are added from
  left to right. Up to 128 elements are added into 8 accumulators, element \<open>i\<close> into accumulator
  \<open>i mod 8\<close>, as long as a full group of 8 is left; the accumulators are added as a balanced
  tree and the elements left over are added to the result from left to right. A longer array is
  split in two, the first part a multiple of 8 long, and the two sums are added.
\<close>

fun acc8 :: "double list \<Rightarrow> double list \<Rightarrow> double list \<times> double list" where
  "acc8 r xs =
     (if length xs < 8 then (r, xs) else acc8 (map2 float_add r (take 8 xs)) (drop 8 xs))"

declare acc8.simps [simp del]

definition tree8 :: "double list \<Rightarrow> double" where
  "tree8 r =
     float_add
       (float_add (float_add (r ! 0) (r ! 1)) (float_add (r ! 2) (r ! 3)))
       (float_add (float_add (r ! 4) (r ! 5)) (float_add (r ! 6) (r ! 7)))"

function pairwise_sum :: "double list \<Rightarrow> double" where
  "pairwise_sum a =
     (if length a < 8 then foldl float_add (Double 0) a
      else if length a \<le> 128 then
        (case acc8 (take 8 a) (drop 8 a) of (r, rest) \<Rightarrow> foldl float_add (tree8 r) rest)
      else
        float_add
          (pairwise_sum (take (length a div 2 - length a div 2 mod 8) a))
          (pairwise_sum (drop (length a div 2 - length a div 2 mod 8) a)))"
  by pat_completeness auto

termination
  by (relation "measure length") auto

declare pairwise_sum.simps [simp del]

text \<open>The reduction starts from the unit of addition.\<close>

definition np_sum :: "double list \<Rightarrow> double" where
  "np_sum a = float_add (Double 0) (pairwise_sum a)"

text \<open>The float literal \<^verbatim>\<open>1e-8\<close>.\<close>

definition rtol :: double where
  "rtol = to_double (1 / 100000000)"

text \<open>
  The check of the sums: \<^verbatim>\<open>abs(f_obs_sum - f_exp_sum) / minimum(f_obs_sum, f_exp_sum) > rtol\<close>.
  Two zero sums give \<open>0 / 0\<close>, which is nan, and nan is not greater than the tolerance.
\<close>

definition sums_disagree :: "double list \<Rightarrow> double list \<Rightarrow> bool" where
  "sums_disagree f_obs f_exp =
     (let f_obs_sum = np_sum f_obs;
          f_exp_sum = np_sum f_exp;
          relative_diff =
            float_div (float_abs (float_sub f_obs_sum f_exp_sum)) (float_min f_obs_sum f_exp_sum)
      in float_less rtol relative_diff)"

definition broadcast :: "double list \<Rightarrow> double list \<Rightarrow> error + (double \<times> double) list" where
  "broadcast xs ys =
     (if length xs = length ys then Inr (zip xs ys)
      else if length xs = 1 then Inr (map (\<lambda>y. (hd xs, y)) ys)
      else if length ys = 1 then Inr (map (\<lambda>x. (x, hd ys)) xs)
      else Inl BroadcastError)"

text \<open>
  The tail probability is nan for a nan statistic. With at least one degree of freedom it is 0
  at \<open>+inf\<close> and 1 at 0. Everywhere else it is a float that a numerical routine of the library
  computes: it is kept as the symbolic value \<open>ChiSquareTail x df\<close>.
\<close>

datatype pvalue = Prob double | ChiSquareTail double int

definition chi2_sf :: "double \<Rightarrow> int \<Rightarrow> pvalue" where
  "chi2_sf x df =
     (if x = NotANumber then Prob NotANumber
      else if 0 < df \<and> x = PosInf then Prob (Double 0)
      else if 0 < df \<and> x = Double 0 then Prob (Double 1)
      else ChiSquareTail x df)"

definition pearson_term :: "double \<times> double \<Rightarrow> double" where
  "pearson_term p =
     (case p of (f_obs, f_exp) \<Rightarrow>
        float_div (float_mul (float_sub f_obs f_exp) (float_sub f_obs f_exp)) f_exp)"

definition chisquare :: "double list \<Rightarrow> double list \<Rightarrow> error + double \<times> pvalue" where
  "chisquare f_obs f_exp =
     (case broadcast f_obs f_exp of
        Inl e \<Rightarrow> Inl e
      | Inr pairs \<Rightarrow>
          if sums_disagree (map fst pairs) (map snd pairs) then Inl SumMismatch
          else
            (let terms = map pearson_term pairs;
                 stat = np_sum terms
             in Inr (stat, chi2_sf stat (int (length terms) - 1))))"

definition chi_squared_test :: "double list \<Rightarrow> double list \<Rightarrow> error + double \<times> pvalue" where
  "chi_squared_test actual expected = chisquare actual expected"

section \<open>Auxiliary notions for the statements\<close>

text \<open>
  \<^verbatim>\<open>str(value)\<close> for the values of the first branch, \<open>None\<close> for the others.
\<close>

fun numeric_str :: "pyvalue \<Rightarrow> string option" where
  "numeric_str (PyInt i) = Some (str_int i)"
| "numeric_str (PyBool b) = Some (if b then ''True'' else ''False'')"
| "numeric_str (PyFloat x) = Some (str_float x)"
| "numeric_str (PyStr s) = None"
| "numeric_str (PyOther ty) = None"

text \<open>How many values of a sequence have \<open>d\<close> as their \<^verbatim>\<open>first_digit\<close>.\<close>

definition digit_count :: "int \<Rightarrow> pyvalue list \<Rightarrow> int" where
  "digit_count d xs = int (length (filter (\<lambda>v. first_digit v = Inr d) xs))"

text \<open>A dictionary with the keys \<open>ks\<close>, in this order, and the counts \<open>f\<close>.\<close>

definition table :: "(int \<Rightarrow> int) \<Rightarrow> int list \<Rightarrow> (int \<times> int) list" where
  "table f ks = map (\<lambda>i. (i, f i)) ks"

section \<open>Properties of \<^verbatim>\<open>count_first_digits\<close>\<close>

lemmas str_eval =
  int_of_first_char_def str_int_def str_nat.simps digit_char_def digit_value_def
  str_fixed_def str_sci_def str_exponent_def counted_def

lemma first_digit_numeric: "numeric_str v = Some s \<Longrightarrow> first_digit v = int_of_first_char s"
  by (cases v) auto

lemma not_counted_other: "\<not> counted (PyOther ty)"
  by (simp add: counted_def)

subsection \<open>The dictionary\<close>

lemma dict_incr_table:
  "distinct ks \<Longrightarrow>
   dict_incr k (table f ks) =
     (if k \<in> set ks then Inr (table (\<lambda>i. if i = k then f i + 1 else f i) ks)
      else Inl (KeyError k))"
proof (induction ks)
  case Nil
  then show ?case by (simp add: table_def)
next
  case (Cons a ks)
  then show ?case by (auto simp: table_def)
qed

lemma sorted_table: "sorted_wrt (<) ks \<Longrightarrow> sort (table f ks) = table f ks"
proof -
  assume s: "sorted_wrt (<) ks"
  have "sorted_wrt (\<lambda>i j. (i, f i) \<le> (j, f j)) ks"
    by (rule sorted_wrt_mono_rel [OF _ s]) (simp add: less_eq_prod_def)
  then have "sorted (table f ks)"
    by (simp add: table_def sorted_wrt_map)
  then show ?thesis by (rule sort_key_id_if_sorted [where f = "\<lambda>x. x", simplified])
qed

lemma keys_1_9: "distinct [1..9::int]" "set [1..9::int] = {1..9}" "sorted_wrt (<) [1..9::int]"
  by simp_all

subsection \<open>The loop\<close>

lemma loop_body_series: "loop_body v s = Inr s' \<Longrightarrow> pandas_series s' = pandas_series s"
  by (auto simp: loop_body_def split: sum.splits)

lemma for_values_series: "pandas_series (fst (for_values vs s)) = pandas_series s"
proof (induction vs arbitrary: s)
  case Nil
  show ?case by simp
next
  case (Cons v vs)
  show ?case
  proof (cases "loop_body v s")
    case (Inl e)
    then show ?thesis by simp
  next
    case (Inr s')
    then show ?thesis using Cons [of s'] loop_body_series [OF Inr] by simp
  qed
qed

lemma for_values_counted:
  "distinct ks \<Longrightarrow> set ks = {1..9} \<Longrightarrow> list_all counted vs \<Longrightarrow> first_digits s = table f ks \<Longrightarrow>
   for_values vs s = (s\<lparr>first_digits := table (\<lambda>d. f d + digit_count d vs) ks\<rparr>, None)"
proof (induction vs arbitrary: s f)
  case Nil
  then show ?case by (simp add: digit_count_def)
next
  case (Cons v vs)
  from Cons.prems obtain d where d: "first_digit v = Inr d" "1 \<le> d" "d \<le> 9"
    by (auto simp: counted_def split: sum.splits)
  let ?f = "\<lambda>i. if i = d then f i + 1 else f i"
  let ?s = "s\<lparr>first_digits := table ?f ks\<rparr>"
  have body: "loop_body v s = Inr ?s"
    using d Cons.prems by (simp add: loop_body_def dict_incr_table)
  have "for_values vs ?s = (?s\<lparr>first_digits := table (\<lambda>e. ?f e + digit_count e vs) ks\<rparr>, None)"
    using Cons.prems by (intro Cons.IH) auto
  moreover have "(\<lambda>e. ?f e + digit_count e vs) = (\<lambda>e. f e + digit_count e (v # vs))"
    using d by (auto simp: digit_count_def fun_eq_iff)
  ultimately show ?case using body by simp
qed

lemma for_values_stops:
  "distinct ks \<Longrightarrow> set ks = {1..9} \<Longrightarrow> list_all counted pre \<Longrightarrow> first_digits s = table f ks \<Longrightarrow>
   \<not> counted v \<Longrightarrow>
   \<exists>s'. for_values (pre @ v # post) s =
     (s', Some (case first_digit v of Inl e \<Rightarrow> e | Inr d \<Rightarrow> KeyError d))"
proof (induction pre arbitrary: s f)
  case Nil
  show ?case
  proof (cases "first_digit v")
    case (Inl e)
    then show ?thesis by (simp add: loop_body_def)
  next
    case (Inr d)
    with Nil have "d \<notin> set ks" by (auto simp: counted_def)
    with Inr Nil show ?thesis by (auto simp: loop_body_def dict_incr_table)
  qed
next
  case (Cons a pre)
  from Cons.prems obtain d where d: "first_digit a = Inr d" "1 \<le> d" "d \<le> 9"
    by (auto simp: counted_def split: sum.splits)
  let ?f = "\<lambda>i. if i = d then f i + 1 else f i"
  let ?s = "s\<lparr>first_digits := table ?f ks\<rparr>"
  have body: "loop_body a s = Inr ?s"
    using d Cons.prems by (simp add: loop_body_def dict_incr_table)
  have "\<exists>s'. for_values (pre @ v # post) ?s =
     (s', Some (case first_digit v of Inl e \<Rightarrow> e | Inr d \<Rightarrow> KeyError d))"
    using Cons.prems by (intro Cons.IH [where f = ?f]) auto
  then show ?case using body by simp
qed

subsection \<open>The call\<close>

lemma count_first_digits_counted:
  assumes "list_all counted xs"
  shows "count_first_digits xs = Inr (map (\<lambda>d. digit_count d xs) [1..9])"
proof -
  let ?s0 = "\<lparr>pandas_series = xs, first_digits = table (\<lambda>_. 0) [1..9]\<rparr>"
  have "for_values xs ?s0 = (?s0\<lparr>first_digits := table (\<lambda>d. 0 + digit_count d xs) [1..9]\<rparr>, None)"
    using assms by (intro for_values_counted keys_1_9) simp_all
  then show ?thesis
    by (simp add: count_first_digits_def call_count_first_digits_def Let_def
        sorted_table [OF keys_1_9(3)] table_def [symmetric])
      (simp add: table_def o_def)
qed

lemma count_first_digits_stops:
  assumes "list_all counted pre" "\<not> counted v"
  shows "count_first_digits (pre @ v # post) =
     Inl (case first_digit v of Inl e \<Rightarrow> e | Inr d \<Rightarrow> KeyError d)"
proof -
  let ?s0 = "\<lparr>pandas_series = pre @ v # post, first_digits = table (\<lambda>_. 0) [1..9]\<rparr>"
  obtain s' where "for_values (pre @ v # post) ?s0 =
     (s', Some (case first_digit v of Inl e \<Rightarrow> e | Inr d \<Rightarrow> KeyError d))"
    using for_values_stops [OF keys_1_9(1,2) assms(1) _ assms(2), of ?s0 "\<lambda>_. 0" post] by auto
  then show ?thesis
    by (simp add: count_first_digits_def call_count_first_digits_def Let_def table_def [symmetric])
qed

lemma split_first_uncounted:
  "\<not> list_all counted xs \<Longrightarrow>
   \<exists>pre v post. xs = pre @ v # post \<and> list_all counted pre \<and> \<not> counted v"
proof (induction xs)
  case Nil
  then show ?case by simp
next
  case (Cons a xs)
  show ?case
  proof (cases "counted a")
    case False
    then have "a # xs = [] @ a # xs \<and> list_all counted [] \<and> \<not> counted a" by simp
    then show ?thesis by blast
  next
    case True
    with Cons obtain pre v post where "xs = pre @ v # post" "list_all counted pre" "\<not> counted v"
      by auto
    with True have "a # xs = (a # pre) @ v # post \<and> list_all counted (a # pre) \<and> \<not> counted v"
      by simp
    then show ?thesis by blast
  qed
qed

lemma count_first_digits_raises:
  assumes "\<not> list_all counted xs"
  shows "\<exists>e. count_first_digits xs = Inl e"
proof -
  from split_first_uncounted [OF assms] obtain pre v post
    where "xs = pre @ v # post" "list_all counted pre" "\<not> counted v" by blast
  then show ?thesis using count_first_digits_stops [of pre v post] by simp
qed

lemma sum_digit_count:
  "list_all counted xs \<Longrightarrow> sum_list (map (\<lambda>d. digit_count d xs) [1..9]) = int (length xs)"
proof (induction xs)
  case Nil
  then show ?case by (simp add: digit_count_def)
next
  case (Cons v xs)
  from Cons.prems obtain d where d: "first_digit v = Inr d" "d \<in> {1..9}"
    by (auto simp: counted_def split: sum.splits)
  have "sum_list (map (\<lambda>e. digit_count e (v # xs)) [1..9]) = (\<Sum>e = 1..9. digit_count e (v # xs))"
    by (simp add: sum_list_distinct_conv_sum_set)
  also have "\<dots> = (\<Sum>e = 1..9. digit_count e xs + (if e = d then 1 else 0))"
    using d by (intro sum.cong) (auto simp: digit_count_def)
  also have "\<dots> = (\<Sum>e = 1..9. digit_count e xs) + 1"
    using d by (simp add: sum.distrib)
  also have "(\<Sum>e = 1..9. digit_count e xs) = sum_list (map (\<lambda>e. digit_count e xs) [1..9])"
    by (simp add: sum_list_distinct_conv_sum_set)
  finally show ?case using Cons by simp
qed

text \<open>
  Claim C1. The digit extraction of \<^verbatim>\<open>count_first_digits\<close> takes the literal first character:
  \<open>123\<close> gives 1 and the string \<open>789\<close> gives 7, but the float \<open>0.0456\<close> gives 0, not 4, and
  the integer \<open>-55\<close> raises the invalid-literal \<^verbatim>\<open>ValueError\<close> of \<^verbatim>\<open>int('-')\<close>, not 5.
\<close>

theorem C1_first_digit_examples:
  "first_digit (PyInt 123) = Inr 1 \<and>
   first_digit (PyFloat (Finite False 456 (- 1))) = Inr 0 \<and>
   first_digit (PyStr ''789'') = Inr 7 \<and>
   first_digit (PyInt (- 55)) = Inl (InvalidLiteral ''-'')"
  by (simp add: str_eval)

text \<open>
  Claim C3, as stated, fails: a series holding a value that is neither a number nor a string
  makes \<^verbatim>\<open>count_first_digits\<close> raise, so no sequence of counts is returned.
\<close>

theorem C3_counterexample:
  "count_first_digits [PyOther ''NoneType''] = Inl (WrongDataFormat ''NoneType'')"
  using count_first_digits_stops [of "[]" "PyOther ''NoneType''" "[]"]
  by (simp add: counted_def)

text \<open>
  Claim C3, amended. For every series in which every value has one of the digits 1 to 9 as the
  first character of its string form, \<^verbatim>\<open>count_first_digits\<close> returns nine counts, none
  negative, the count of digit \<open>d\<close> at position \<open>d - 1\<close>, which sum to the number of values.
  For a series that holds a value neither numeric nor string-typed it raises instead.
\<close>

theorem C3_count_first_digits_counts:
  "(list_all counted xs \<longrightarrow>
      (\<exists>cs. count_first_digits xs = Inr cs \<and> length cs = 9 \<and> (\<forall>c \<in> set cs. 0 \<le> c) \<and>
         sum_list cs = int (length xs) \<and>
         (\<forall>d \<in> {1..9}. cs ! nat (d - 1) = digit_count d xs))) \<and>
   (PyOther ty \<in> set xs \<longrightarrow> (\<exists>e. count_first_digits xs = Inl e))"
proof (intro conjI impI)
  assume ok: "list_all counted xs"
  let ?cs = "map (\<lambda>d. digit_count d xs) [1..9]"
  have "count_first_digits xs = Inr ?cs"
    by (rule count_first_digits_counted [OF ok])
  moreover have "length ?cs = 9" by simp
  moreover have "\<forall>c \<in> set ?cs. 0 \<le> c" by (auto simp: digit_count_def)
  moreover have "sum_list ?cs = int (length xs)" by (rule sum_digit_count [OF ok])
  moreover have "\<forall>d \<in> {1..9}. ?cs ! nat (d - 1) = digit_count d xs"
  proof
    fix d :: int
    assume "d \<in> {1..9}"
    then have "nat (d - 1) < length [1..9::int]" "1 + int (nat (d - 1)) \<le> 9" by auto
    then show "?cs ! nat (d - 1) = digit_count d xs"
      using \<open>d \<in> {1..9}\<close> by (simp only: nth_map nth_upto) simp
  qed
  ultimately show "\<exists>cs. count_first_digits xs = Inr cs \<and> length cs = 9 \<and>
      (\<forall>c \<in> set cs. 0 \<le> c) \<and> sum_list cs = int (length xs) \<and>
      (\<forall>d \<in> {1..9}. cs ! nat (d - 1) = digit_count d xs)"
    by blast
next
  assume "PyOther ty \<in> set xs"
  then have "\<not> list_all counted xs"
    using not_counted_other by (auto simp: list_all_iff)
  then show "\<exists>e. count_first_digits xs = Inl e" by (rule count_first_digits_raises)
qed

theorem C3_witness:
  "list_all counted [PyInt 123, PyStr ''789'', PyFloat (Finite False 12345 4)] \<and>
   (\<exists>cs. count_first_digits [PyInt 123, PyStr ''789'', PyFloat (Finite False 12345 4)] = Inr cs \<and>
      length cs = 9 \<and> sum_list cs = 3) \<and>
   PyOther ''NoneType'' \<in> set [PyInt 123, PyOther ''NoneType''] \<and>
   (\<exists>e. count_first_digits [PyInt 123, PyOther ''NoneType''] = Inl e)"
proof -
  have a: "list_all counted [PyInt 123, PyStr ''789'', PyFloat (Finite False 12345 4)]"
    by (simp add: str_eval)
  have b: "PyOther ''NoneType'' \<in> set [PyInt 123, PyOther ''NoneType'']"
    by simp
  show ?thesis
    using a b
      C3_count_first_digits_counts [of "[PyInt 123, PyStr ''789'', PyFloat (Finite False 12345 4)]"]
      C3_count_first_digits_counts [of "[PyInt 123, PyOther ''NoneType'']" "''NoneType''"]
    by auto
qed

text \<open>
  Claim C7, as stated, fails: when an earlier value already stops the loop, its exception is
  the one raised. Here the integer \<open>0\<close> comes first and the call ends in \<^verbatim>\<open>KeyError\<close>.
\<close>

theorem C7_counterexample:
  "count_first_digits [PyInt 0, PyOther ''NoneType''] = Inl (KeyError 0)"
  using count_first_digits_stops [of "[]" "PyInt 0" "[PyOther ''NoneType'']"]
  by (simp add: str_eval)

text \<open>
  Claim C7, amended. A series that holds a value neither numeric nor string-typed always makes
  \<^verbatim>\<open>count_first_digits\<close> raise, with no counts returned. When every value before that one is
  counted, the exception is the \<^verbatim>\<open>ValueError\<close> \<open>Wrong data format\<close> for the type of that value.
\<close>

theorem C7_wrong_data_format:
  "(list_all counted pre \<longrightarrow>
      count_first_digits (pre @ PyOther ty # post) = Inl (WrongDataFormat ty)) \<and>
   (\<exists>e. count_first_digits (pre @ PyOther ty # post) = Inl e)"
proof
  show "list_all counted pre \<longrightarrow>
      count_first_digits (pre @ PyOther ty # post) = Inl (WrongDataFormat ty)"
    using count_first_digits_stops [of pre "PyOther ty" post] not_counted_other by simp
  have "\<not> list_all counted (pre @ PyOther ty # post)"
    using not_counted_other by simp
  then show "\<exists>e. count_first_digits (pre @ PyOther ty # post) = Inl e"
    by (rule count_first_digits_raises)
qed

theorem C7_witness:
  "list_all counted [PyInt 123, PyStr ''789''] \<and>
   count_first_digits ([PyInt 123, PyStr ''789''] @ PyOther ''NoneType'' # [PyInt 5]) =
     Inl (WrongDataFormat ''NoneType'')"
proof -
  have a: "list_all counted [PyInt 123, PyStr ''789'']"
    by (simp add: str_eval)
  show ?thesis
    using a C7_wrong_data_format [of "[PyInt 123, PyStr ''789'']" "''NoneType''" "[PyInt 5]"]
    by blast
qed

text \<open>
  Claim C8, as stated, fails: the loop stops at the first value that raises, so a numeric value
  with a leading \<open>0\<close> that comes after such a value is never reached. Here a value that is
  neither numeric nor string-typed comes first and the call ends in its \<open>Wrong data format\<close>
  error, not in \<^verbatim>\<open>KeyError\<close>.
\<close>

theorem C8_counterexample:
  "count_first_digits [PyOther ''NoneType'', PyFloat (Finite False 456 (- 1))] =
     Inl (WrongDataFormat ''NoneType'')"
  using count_first_digits_stops
    [of "[]" "PyOther ''NoneType''" "[PyFloat (Finite False 456 (- 1))]"]
  by (simp add: counted_def)

text \<open>
  Claim C8, amended. A numeric value whose string form begins with the character \<open>0\<close> stops the
  call with \<^verbatim>\<open>KeyError\<close> for the key \<open>0\<close> when the loop reaches it, that is, when every value
  before it is counted; this is not the \<open>Wrong data format\<close> error.
\<close>

theorem C8_leading_zero_key_error:
  "numeric_str v = Some (CHR ''0'' # rest) \<Longrightarrow> list_all counted pre \<Longrightarrow>
   count_first_digits (pre @ v # post) = Inl (KeyError 0) \<and>
   count_first_digits (pre @ v # post) \<noteq> Inl (WrongDataFormat ty)"
proof -
  assume s: "numeric_str v = Some (CHR ''0'' # rest)" and pre: "list_all counted pre"
  have d: "first_digit v = Inr 0"
    using first_digit_numeric [OF s] by (simp add: int_of_first_char_def digit_value_def)
  then have "\<not> counted v" by (simp add: counted_def)
  from count_first_digits_stops [OF pre this, of post] d
  show ?thesis by simp
qed

theorem C8_witness:
  "numeric_str (PyFloat (Finite False 456 (- 1))) = Some (CHR ''0'' # ''.0456'') \<and>
   list_all counted [PyInt 123] \<and>
   count_first_digits ([PyInt 123] @ PyFloat (Finite False 456 (- 1)) # [PyStr ''789'']) =
     Inl (KeyError 0)"
proof -
  have a: "numeric_str (PyFloat (Finite False 456 (- 1))) = Some (CHR ''0'' # ''.0456'')"
    by (simp add: str_eval)
  have b: "list_all counted [PyInt 123]"
    by (simp add: str_eval)
  show ?thesis
    using a b C8_leading_zero_key_error [OF a b, of "[PyStr ''789'']"] by blast
qed

text \<open>
  Claim C9. Whatever the outcome of the call, returned counts or an exception, the caller's
  series is the same sequence after the call as before it.
\<close>

theorem C9_series_unchanged: "snd (call_count_first_digits xs) = xs"
  using for_values_series [of xs "\<lparr>pandas_series = xs, first_digits = map (\<lambda>i. (i, 0)) [1..9]\<rparr>"]
  by (simp add: call_count_first_digits_def Let_def split_beta)

section \<open>Rounding\<close>

lemma rhe_near: "\<bar>x - of_int k\<bar> < 1 / 2 \<Longrightarrow> round_half_even x = k"
proof -
  assume a: "\<bar>x - of_int k\<bar> < 1 / 2"
  show ?thesis
  proof (cases "of_int k \<le> x")
    case True
    then have "\<lfloor>x\<rfloor> = k" using a by (intro floor_unique) auto
    then show ?thesis using a True by (simp add: round_half_even_def Let_def)
  next
    case False
    then have f: "\<lfloor>x\<rfloor> = k - 1" using a by (intro floor_unique) auto
    then show ?thesis using a False by (auto simp add: round_half_even_def Let_def)
  qed
qed

lemma rhe_int [simp]: "round_half_even (of_int k) = k"
  by (rule rhe_near) simp

lemma rhe_tie: "round_half_even (of_int k + 1 / 2) = (if even k then k else k + 1)"
proof -
  have "\<lfloor>of_int k + 1 / 2 :: rat\<rfloor> = k" by (intro floor_unique) auto
  then show ?thesis by (simp add: round_half_even_def Let_def)
qed

lemma rhe_abs_le: "\<bar>of_int (round_half_even x) :: rat\<bar> \<le> 2 * \<bar>x\<bar>"
proof -
  let ?f = "\<lfloor>x\<rfloor>"
  have fl: "of_int ?f \<le> x" "x < of_int ?f + 1" by linarith+
  show ?thesis
  proof (cases "\<bar>x\<bar> < 1 / 2")
    case True
    then have "round_half_even x = 0" by (intro rhe_near) simp
    then show ?thesis by simp
  next
    case False
    have "\<bar>of_int (round_half_even x) - x\<bar> \<le> 1 / 2"
      using fl by (auto simp: round_half_even_def Let_def)
    then show ?thesis using False by linarith
  qed
qed

lemma rhe_nonneg: "0 \<le> x \<Longrightarrow> 0 \<le> round_half_even x"
  by (auto simp: round_half_even_def Let_def)

lemma round_double_abs_le: "\<bar>round_double x\<bar> \<le> 2 * \<bar>x\<bar>"
proof (cases "x = 0")
  case True
  then show ?thesis by (simp add: round_double_def)
next
  case False
  define q where "q = max (ilog2 \<bar>x\<bar> - 52) (- 1074)"
  have p: "(0::rat) < 2 powi q" by simp
  have "\<bar>round_double x\<bar> = \<bar>of_int (round_half_even (x / 2 powi q))\<bar> * 2 powi q"
    using False p by (simp add: round_double_def Let_def q_def abs_mult)
  also have "\<dots> \<le> (2 * \<bar>x / 2 powi q\<bar>) * 2 powi q"
    using p by (intro mult_right_mono rhe_abs_le) simp
  also have "\<dots> = 2 * \<bar>x\<bar>" using p by simp
  finally show ?thesis .
qed

lemma round_double_eq:
  "x \<noteq> 0 \<Longrightarrow> ilog2 \<bar>x\<bar> = e \<Longrightarrow> max (e - 52) (- 1074) = q \<Longrightarrow>
   round_half_even (x / 2 powi q) = m \<Longrightarrow> round_double x = of_int m * 2 powi q"
  by (simp add: round_double_def Let_def)




lemma bitlen_pos: "0 < n \<Longrightarrow> 1 \<le> bitlen n"
  using bitlen_eq_zero_iff [of n] bitlen_nonneg [of n] by linarith

lemma ilog2_bounds:
  assumes "0 < x"
  shows "2 powi (ilog2 x) \<le> x \<and> x < 2 powi (ilog2 x + 1)"
proof (cases "1 \<le> x")
  case True
  define n where "n = \<lfloor>x\<rfloor>"
  define b where "b = bitlen n"
  have n: "1 \<le> n" "of_int n \<le> x" "x < of_int n + 1"
    using True by (auto simp: n_def) linarith
  then have b1: "1 \<le> b" unfolding b_def by (intro bitlen_pos) simp
  have bb: "2 ^ nat (b - 1) \<le> n" "n < 2 ^ nat b"
    using bitlen_bounds [of n] n(1) by (auto simp: b_def)
  have il: "ilog2 x = b - 1" using True by (simp add: ilog2_def n_def b_def)
  have "(2::rat) powi (b - 1) = of_int (2 ^ nat (b - 1))"
    using b1 by (simp add: power_int_nonneg_exp)
  also have "\<dots> \<le> of_int n" using bb(1) by (simp only: of_int_le_iff)
  finally have lo: "2 powi (b - 1) \<le> x" using n(2) by linarith
  have "n + 1 \<le> 2 ^ nat b" using bb(2) by simp
  then have "(of_int (n + 1) :: rat) \<le> of_int (2 ^ nat b)" by (simp only: of_int_le_iff)
  also have "\<dots> = 2 powi b" using b1 by (simp add: power_int_nonneg_exp)
  finally have "x < 2 powi b" using n(3) by simp
  with lo il show ?thesis by simp
next
  case False
  define y where "y = 1 / x"
  define m where "m = \<lceil>y\<rceil> - 1"
  define b where "b = bitlen m"
  have y1: "1 < y" using assms False by (simp add: y_def)
  have m: "of_int m < y" "y \<le> of_int m + 1"
    by (auto simp: m_def) linarith+
  have m1: "1 \<le> m"
  proof -
    have "(1::rat) < of_int m + 1" using y1 m(2) by linarith
    then have "(0::rat) < of_int m" by simp
    then show ?thesis by simp
  qed
  then have b1: "1 \<le> b" unfolding b_def by (intro bitlen_pos) simp
  have bb: "2 ^ nat (b - 1) \<le> m" "m < 2 ^ nat b"
    using bitlen_bounds [of m] m1 by (auto simp: b_def)
  have il: "ilog2 x = - b" using False by (simp add: ilog2_def y_def m_def b_def)
  have "m + 1 \<le> 2 ^ nat b" using bb(2) by simp
  then have "(of_int (m + 1) :: rat) \<le> of_int (2 ^ nat b)" by (simp only: of_int_le_iff)
  then have "y \<le> 2 ^ nat b" using m(2) by simp
  then have "1 / (2 ^ nat b) \<le> x"
    using assms by (simp add: y_def field_simps)
  moreover have "(2::rat) powi (- b) = 1 / 2 ^ nat b"
    using b1 by (simp add: power_int_minus_divide power_int_nonneg_exp)
  ultimately have lo: "2 powi (- b) \<le> x" by simp
  have "(2::rat) ^ nat (b - 1) \<le> of_int m" using bb(1) by simp
  then have "2 ^ nat (b - 1) < y" using m(1) by linarith
  then have "x < 1 / 2 ^ nat (b - 1)"
    using assms by (simp add: y_def field_simps)
  moreover have "(2::rat) powi (- b + 1) = 1 / 2 ^ nat (b - 1)"
  proof -
    have "(2::rat) powi (- b + 1) = 2 powi (- (b - 1))" by simp
    also have "\<dots> = 1 / 2 powi (b - 1)" by (rule power_int_minus_divide)
    also have "\<dots> = 1 / 2 ^ nat (b - 1)" using b1 by (simp add: power_int_nonneg_exp)
    finally show ?thesis .
  qed
  ultimately have "x < 2 powi (- b + 1)" by simp
  with lo il show ?thesis by simp
qed

lemma power_int_2_less_cancel: "(2::rat) powi i < 2 powi j \<Longrightarrow> i < j"
proof (rule ccontr)
  assume a: "(2::rat) powi i < 2 powi j" and "\<not> i < j"
  then have "(2::rat) powi j \<le> 2 powi i" by (intro power_int_increasing) simp_all
  with a show False by linarith
qed

lemma ilog2_eqI:
  assumes "2 powi e \<le> x" "x < 2 powi (e + 1)"
  shows "ilog2 x = e"
proof -
  have "(0::rat) < 2 powi e" by simp
  with assms have x: "0 < x" by linarith
  from ilog2_bounds [OF x] have b: "2 powi (ilog2 x) \<le> x" "x < 2 powi (ilog2 x + 1)" by auto
  have "(2::rat) powi e < 2 powi (ilog2 x + 1)" using assms(1) b(2) by linarith
  then have 1: "e < ilog2 x + 1" by (rule power_int_2_less_cancel)
  have "(2::rat) powi (ilog2 x) < 2 powi (e + 1)" using assms(2) b(1) by linarith
  then have 2: "ilog2 x < e + 1" by (rule power_int_2_less_cancel)
  from 1 2 show ?thesis by simp
qed

text \<open>An integer below \<open>2\<^sup>5\<^sup>3\<close> in magnitude is a binary64 number.\<close>

lemma round_double_int:
  assumes "\<bar>n\<bar> < 2 ^ 53"
  shows "round_double (of_int n) = of_int n"
proof (cases "n = 0")
  case True
  then show ?thesis by (simp add: round_double_def)
next
  case False
  define e where "e = ilog2 \<bar>of_int n\<bar>"
  define q where "q = max (e - 52) (- 1074)"
  have pos: "(0::rat) < \<bar>of_int n\<bar>" using False by simp
  have "(2::rat) powi e \<le> \<bar>of_int n\<bar>" using ilog2_bounds [OF pos] by (simp add: e_def)
  also have "\<bar>of_int n :: rat\<bar> < 2 powi 53"
  proof -
    have "(of_int \<bar>n\<bar> :: rat) < of_int (2 ^ 53)" using assms by (simp only: of_int_less_iff)
    then show ?thesis by simp
  qed
  finally have "e < 53" by (rule power_int_2_less_cancel)
  then have q: "q \<le> 0" by (simp add: q_def)
  define k where "k = nat (- q)"
  have pq: "(2::rat) powi q = 1 / 2 ^ k"
  proof -
    have "(2::rat) powi q = 2 powi (- int k)" using q by (simp add: k_def)
    also have "\<dots> = 1 / 2 powi (int k)" by (rule power_int_minus_divide)
    finally show ?thesis by simp
  qed
  have "of_int n / (2::rat) powi q = of_int (n * 2 ^ k)" by (simp add: pq)
  then have "round_half_even (of_int n / 2 powi q) = n * 2 ^ k" by (simp only: rhe_int)
  then have "round_double (of_int n) = of_int (n * 2 ^ k) * 2 powi q"
    using False by (simp add: round_double_def Let_def e_def q_def)
  then show ?thesis by (simp add: pq)
qed

lemma float_of_int_exact: "\<bar>n\<bar> < 2 ^ 53 \<Longrightarrow> float_of_int n = Inr (Double (of_int n))"
proof -
  assume a: "\<bar>n\<bar> < 2 ^ 53"
  have "(of_int \<bar>n\<bar> :: rat) < of_int (2 ^ 53)" using a by (simp only: of_int_less_iff)
  then have "\<bar>of_int n :: rat\<bar> < 2 ^ 1024" by simp
  then show ?thesis by (simp add: float_of_int_def round_double_int [OF a])
qed

lemma float_of_int_cases:
  "float_of_int n = Inr x \<Longrightarrow> \<exists>r. x = Double r \<and> \<bar>r\<bar> < 2 ^ 1024"
  by (auto simp: float_of_int_def Let_def split: if_splits)

lemma float_mul_small:
  assumes "\<bar>r\<bar> < 2 ^ 1024" "\<bar>v\<bar> \<le> 1 / 2"
  shows "float_mul (Double r) (Double v) = Double (round_double (r * v))"
proof -
  have "\<bar>round_double (r * v)\<bar> \<le> 2 * \<bar>r * v\<bar>" by (rule round_double_abs_le)
  also have "\<dots> = 2 * (\<bar>r\<bar> * \<bar>v\<bar>)" by (simp add: abs_mult)
  also have "\<dots> \<le> 2 * (\<bar>r\<bar> * (1 / 2))"
    using assms(2) by (intro mult_left_mono) simp_all
  also have "\<dots> < 2 ^ 1024" using assms(1) by simp
  finally have "\<bar>round_double (r * v)\<bar> < 2 ^ 1024" .
  then have "\<not> 2 ^ 1024 \<le> round_double (r * v)" "\<not> round_double (r * v) \<le> - (2 ^ 1024)"
    by linarith+
  then show ?thesis by (simp add: to_double_def Let_def)
qed

subsection \<open>The constants and the products for the totals 1000 and 500\<close>

lemma literal_301: "to_double (301 / 1000) = Double (5422333951354077 / 18014398509481984)"
proof -
  have e: "ilog2 \<bar>301 / 1000 :: rat\<bar> = - 2" by (rule ilog2_eqI) simp_all
  have m: "round_half_even ((301 / 1000) / 2 powi (- 54)) = 5422333951354077"
    by (rule rhe_near) simp
  have r: "round_double (301 / 1000) = 5422333951354077 / 18014398509481984"
    using round_double_eq [OF _ e _ m] by simp
  show ?thesis unfolding to_double_def r Let_def by simp
qed

lemma literal_176: "to_double (176 / 1000) = Double (3170534137668829 / 18014398509481984)"
proof -
  have e: "ilog2 \<bar>176 / 1000 :: rat\<bar> = - 3" by (rule ilog2_eqI) simp_all
  have m: "round_half_even ((176 / 1000) / 2 powi (- 55)) = 6341068275337658"
    by (rule rhe_near) simp
  have r: "round_double (176 / 1000) = 3170534137668829 / 18014398509481984"
    using round_double_eq [OF _ e _ m] by simp
  show ?thesis unfolding to_double_def r Let_def by simp
qed

lemma literal_125: "to_double (125 / 1000) = Double (1 / 8)"
proof -
  have e: "ilog2 \<bar>125 / 1000 :: rat\<bar> = - 3" by (rule ilog2_eqI) simp_all
  have m: "round_half_even ((125 / 1000) / 2 powi (- 55)) = 4503599627370496"
    by (rule rhe_near) simp
  have r: "round_double (125 / 1000) = 1 / 8"
    using round_double_eq [OF _ e _ m] by simp
  show ?thesis unfolding to_double_def r Let_def by simp
qed

lemma literal_97: "to_double (97 / 1000) = Double (3494793310839505 / 36028797018963968)"
proof -
  have e: "ilog2 \<bar>97 / 1000 :: rat\<bar> = - 4" by (rule ilog2_eqI) simp_all
  have m: "round_half_even ((97 / 1000) / 2 powi (- 56)) = 6989586621679010"
    by (rule rhe_near) simp
  have r: "round_double (97 / 1000) = 3494793310839505 / 36028797018963968"
    using round_double_eq [OF _ e _ m] by simp
  show ?thesis unfolding to_double_def r Let_def by simp
qed

lemma literal_79: "to_double (79 / 1000) = Double (5692549928996307 / 72057594037927936)"
proof -
  have e: "ilog2 \<bar>79 / 1000 :: rat\<bar> = - 4" by (rule ilog2_eqI) simp_all
  have m: "round_half_even ((79 / 1000) / 2 powi (- 56)) = 5692549928996307"
    by (rule rhe_near) simp
  have r: "round_double (79 / 1000) = 5692549928996307 / 72057594037927936"
    using round_double_eq [OF _ e _ m] by simp
  show ?thesis unfolding to_double_def r Let_def by simp
qed

lemma literal_67: "to_double (67 / 1000) = Double (1206964700135293 / 18014398509481984)"
proof -
  have e: "ilog2 \<bar>67 / 1000 :: rat\<bar> = - 4" by (rule ilog2_eqI) simp_all
  have m: "round_half_even ((67 / 1000) / 2 powi (- 56)) = 4827858800541172"
    by (rule rhe_near) simp
  have r: "round_double (67 / 1000) = 1206964700135293 / 18014398509481984"
    using round_double_eq [OF _ e _ m] by simp
  show ?thesis unfolding to_double_def r Let_def by simp
qed

lemma literal_58: "to_double (58 / 1000) = Double (8358680908399641 / 144115188075855872)"
proof -
  have e: "ilog2 \<bar>58 / 1000 :: rat\<bar> = - 5" by (rule ilog2_eqI) simp_all
  have m: "round_half_even ((58 / 1000) / 2 powi (- 57)) = 8358680908399641"
    by (rule rhe_near) simp
  have r: "round_double (58 / 1000) = 8358680908399641 / 144115188075855872"
    using round_double_eq [OF _ e _ m] by simp
  show ?thesis unfolding to_double_def r Let_def by simp
qed

lemma literal_51: "to_double (51 / 1000) = Double (7349874591868649 / 144115188075855872)"
proof -
  have e: "ilog2 \<bar>51 / 1000 :: rat\<bar> = - 5" by (rule ilog2_eqI) simp_all
  have m: "round_half_even ((51 / 1000) / 2 powi (- 57)) = 7349874591868649"
    by (rule rhe_near) simp
  have r: "round_double (51 / 1000) = 7349874591868649 / 144115188075855872"
    using round_double_eq [OF _ e _ m] by simp
  show ?thesis unfolding to_double_def r Let_def by simp
qed

lemma literal_46: "to_double (46 / 1000) = Double (3314649325744685 / 72057594037927936)"
proof -
  have e: "ilog2 \<bar>46 / 1000 :: rat\<bar> = - 5" by (rule ilog2_eqI) simp_all
  have m: "round_half_even ((46 / 1000) / 2 powi (- 57)) = 6629298651489370"
    by (rule rhe_near) simp
  have r: "round_double (46 / 1000) = 3314649325744685 / 72057594037927936"
    using round_double_eq [OF _ e _ m] by simp
  show ?thesis unfolding to_double_def r Let_def by simp
qed

lemma product_1000_301: "float_mul (Double 1000) (Double (5422333951354077 / 18014398509481984)) = Double (301)"
proof -
  have x: "1000 * (5422333951354077 / 18014398509481984) = (677791743919259625 / 2251799813685248 :: rat)" by simp
  have e: "ilog2 \<bar>677791743919259625 / 2251799813685248 :: rat\<bar> = 8" by (rule ilog2_eqI) simp_all
  have m: "round_half_even ((677791743919259625 / 2251799813685248) / 2 powi (- 44)) = 5295247999369216"
    by (rule rhe_near) simp
  have r: "round_double (677791743919259625 / 2251799813685248) = 301"
    using round_double_eq [OF _ e _ m] by simp
  show ?thesis unfolding float_mul.simps to_double_def x r Let_def by simp
qed

lemma product_1000_176: "float_mul (Double 1000) (Double (3170534137668829 / 18014398509481984)) = Double (176)"
proof -
  have x: "1000 * (3170534137668829 / 18014398509481984) = (396316767208603625 / 2251799813685248 :: rat)" by simp
  have e: "ilog2 \<bar>396316767208603625 / 2251799813685248 :: rat\<bar> = 7" by (rule ilog2_eqI) simp_all
  have m: "round_half_even ((396316767208603625 / 2251799813685248) / 2 powi (- 45)) = 6192449487634432"
    by (rule rhe_near) simp
  have r: "round_double (396316767208603625 / 2251799813685248) = 176"
    using round_double_eq [OF _ e _ m] by simp
  show ?thesis unfolding float_mul.simps to_double_def x r Let_def by simp
qed

lemma product_1000_125: "float_mul (Double 1000) (Double (1 / 8)) = Double (125)"
proof -
  have x: "1000 * (1 / 8) = (125 :: rat)" by simp
  have e: "ilog2 \<bar>125 :: rat\<bar> = 6" by (rule ilog2_eqI) simp_all
  have m: "round_half_even ((125) / 2 powi (- 46)) = 8796093022208000"
    by (rule rhe_near) simp
  have r: "round_double (125) = 125"
    using round_double_eq [OF _ e _ m] by simp
  show ?thesis unfolding float_mul.simps to_double_def x r Let_def by simp
qed

lemma product_1000_97: "float_mul (Double 1000) (Double (3494793310839505 / 36028797018963968)) = Double (97)"
proof -
  have x: "1000 * (3494793310839505 / 36028797018963968) = (436849163854938125 / 4503599627370496 :: rat)" by simp
  have e: "ilog2 \<bar>436849163854938125 / 4503599627370496 :: rat\<bar> = 6" by (rule ilog2_eqI) simp_all
  have m: "round_half_even ((436849163854938125 / 4503599627370496) / 2 powi (- 46)) = 6825768185233408"
    by (rule rhe_near) simp
  have r: "round_double (436849163854938125 / 4503599627370496) = 97"
    using round_double_eq [OF _ e _ m] by simp
  show ?thesis unfolding float_mul.simps to_double_def x r Let_def by simp
qed

lemma product_1000_79: "float_mul (Double 1000) (Double (5692549928996307 / 72057594037927936)) = Double (79)"
proof -
  have x: "1000 * (5692549928996307 / 72057594037927936) = (711568741124538375 / 9007199254740992 :: rat)" by simp
  have e: "ilog2 \<bar>711568741124538375 / 9007199254740992 :: rat\<bar> = 6" by (rule ilog2_eqI) simp_all
  have m: "round_half_even ((711568741124538375 / 9007199254740992) / 2 powi (- 46)) = 5559130790035456"
    by (rule rhe_near) simp
  have r: "round_double (711568741124538375 / 9007199254740992) = 79"
    using round_double_eq [OF _ e _ m] by simp
  show ?thesis unfolding float_mul.simps to_double_def x r Let_def by simp
qed

lemma product_1000_67: "float_mul (Double 1000) (Double (1206964700135293 / 18014398509481984)) = Double (67)"
proof -
  have x: "1000 * (1206964700135293 / 18014398509481984) = (150870587516911625 / 2251799813685248 :: rat)" by simp
  have e: "ilog2 \<bar>150870587516911625 / 2251799813685248 :: rat\<bar> = 6" by (rule ilog2_eqI) simp_all
  have m: "round_half_even ((150870587516911625 / 2251799813685248) / 2 powi (- 46)) = 4714705859903488"
    by (rule rhe_near) simp
  have r: "round_double (150870587516911625 / 2251799813685248) = 67"
    using round_double_eq [OF _ e _ m] by simp
  show ?thesis unfolding float_mul.simps to_double_def x r Let_def by simp
qed

lemma product_1000_58: "float_mul (Double 1000) (Double (8358680908399641 / 144115188075855872)) = Double (58)"
proof -
  have x: "1000 * (8358680908399641 / 144115188075855872) = (1044835113549955125 / 18014398509481984 :: rat)" by simp
  have e: "ilog2 \<bar>1044835113549955125 / 18014398509481984 :: rat\<bar> = 5" by (rule ilog2_eqI) simp_all
  have m: "round_half_even ((1044835113549955125 / 18014398509481984) / 2 powi (- 47)) = 8162774324609024"
    by (rule rhe_near) simp
  have r: "round_double (1044835113549955125 / 18014398509481984) = 58"
    using round_double_eq [OF _ e _ m] by simp
  show ?thesis unfolding float_mul.simps to_double_def x r Let_def by simp
qed

lemma product_1000_51: "float_mul (Double 1000) (Double (7349874591868649 / 144115188075855872)) = Double (51)"
proof -
  have x: "1000 * (7349874591868649 / 144115188075855872) = (918734323983581125 / 18014398509481984 :: rat)" by simp
  have e: "ilog2 \<bar>918734323983581125 / 18014398509481984 :: rat\<bar> = 5" by (rule ilog2_eqI) simp_all
  have m: "round_half_even ((918734323983581125 / 18014398509481984) / 2 powi (- 47)) = 7177611906121728"
    by (rule rhe_near) simp
  have r: "round_double (918734323983581125 / 18014398509481984) = 51"
    using round_double_eq [OF _ e _ m] by simp
  show ?thesis unfolding float_mul.simps to_double_def x r Let_def by simp
qed

lemma product_1000_46: "float_mul (Double 1000) (Double (3314649325744685 / 72057594037927936)) = Double (46)"
proof -
  have x: "1000 * (3314649325744685 / 72057594037927936) = (414331165718085625 / 9007199254740992 :: rat)" by simp
  have e: "ilog2 \<bar>414331165718085625 / 9007199254740992 :: rat\<bar> = 5" by (rule ilog2_eqI) simp_all
  have m: "round_half_even ((414331165718085625 / 9007199254740992) / 2 powi (- 47)) = 6473924464345088"
    by (rule rhe_near) simp
  have r: "round_double (414331165718085625 / 9007199254740992) = 46"
    using round_double_eq [OF _ e _ m] by simp
  show ?thesis unfolding float_mul.simps to_double_def x r Let_def by simp
qed

lemma product_500_301: "float_mul (Double 500) (Double (5422333951354077 / 18014398509481984)) = Double (301 / 2)"
proof -
  have x: "500 * (5422333951354077 / 18014398509481984) = (677791743919259625 / 4503599627370496 :: rat)" by simp
  have e: "ilog2 \<bar>677791743919259625 / 4503599627370496 :: rat\<bar> = 7" by (rule ilog2_eqI) simp_all
  have m: "round_half_even ((677791743919259625 / 4503599627370496) / 2 powi (- 45)) = 5295247999369216"
    by (rule rhe_near) simp
  have r: "round_double (677791743919259625 / 4503599627370496) = 301 / 2"
    using round_double_eq [OF _ e _ m] by simp
  show ?thesis unfolding float_mul.simps to_double_def x r Let_def by simp
qed

lemma product_500_176: "float_mul (Double 500) (Double (3170534137668829 / 18014398509481984)) = Double (88)"
proof -
  have x: "500 * (3170534137668829 / 18014398509481984) = (396316767208603625 / 4503599627370496 :: rat)" by simp
  have e: "ilog2 \<bar>396316767208603625 / 4503599627370496 :: rat\<bar> = 6" by (rule ilog2_eqI) simp_all
  have m: "round_half_even ((396316767208603625 / 4503599627370496) / 2 powi (- 46)) = 6192449487634432"
    by (rule rhe_near) simp
  have r: "round_double (396316767208603625 / 4503599627370496) = 88"
    using round_double_eq [OF _ e _ m] by simp
  show ?thesis unfolding float_mul.simps to_double_def x r Let_def by simp
qed

lemma product_500_125: "float_mul (Double 500) (Double (1 / 8)) = Double (125 / 2)"
proof -
  have x: "500 * (1 / 8) = (125 / 2 :: rat)" by simp
  have e: "ilog2 \<bar>125 / 2 :: rat\<bar> = 5" by (rule ilog2_eqI) simp_all
  have m: "round_half_even ((125 / 2) / 2 powi (- 47)) = 8796093022208000"
    by (rule rhe_near) simp
  have r: "round_double (125 / 2) = 125 / 2"
    using round_double_eq [OF _ e _ m] by simp
  show ?thesis unfolding float_mul.simps to_double_def x r Let_def by simp
qed

lemma product_500_97: "float_mul (Double 500) (Double (3494793310839505 / 36028797018963968)) = Double (97 / 2)"
proof -
  have x: "500 * (3494793310839505 / 36028797018963968) = (436849163854938125 / 9007199254740992 :: rat)" by simp
  have e: "ilog2 \<bar>436849163854938125 / 9007199254740992 :: rat\<bar> = 5" by (rule ilog2_eqI) simp_all
  have m: "round_half_even ((436849163854938125 / 9007199254740992) / 2 powi (- 47)) = 6825768185233408"
    by (rule rhe_near) simp
  have r: "round_double (436849163854938125 / 9007199254740992) = 97 / 2"
    using round_double_eq [OF _ e _ m] by simp
  show ?thesis unfolding float_mul.simps to_double_def x r Let_def by simp
qed

lemma product_500_79: "float_mul (Double 500) (Double (5692549928996307 / 72057594037927936)) = Double (79 / 2)"
proof -
  have x: "500 * (5692549928996307 / 72057594037927936) = (711568741124538375 / 18014398509481984 :: rat)" by simp
  have e: "ilog2 \<bar>711568741124538375 / 18014398509481984 :: rat\<bar> = 5" by (rule ilog2_eqI) simp_all
  have m: "round_half_even ((711568741124538375 / 18014398509481984) / 2 powi (- 47)) = 5559130790035456"
    by (rule rhe_near) simp
  have r: "round_double (711568741124538375 / 18014398509481984) = 79 / 2"
    using round_double_eq [OF _ e _ m] by simp
  show ?thesis unfolding float_mul.simps to_double_def x r Let_def by simp
qed

lemma product_500_67: "float_mul (Double 500) (Double (1206964700135293 / 18014398509481984)) = Double (67 / 2)"
proof -
  have x: "500 * (1206964700135293 / 18014398509481984) = (150870587516911625 / 4503599627370496 :: rat)" by simp
  have e: "ilog2 \<bar>150870587516911625 / 4503599627370496 :: rat\<bar> = 5" by (rule ilog2_eqI) simp_all
  have m: "round_half_even ((150870587516911625 / 4503599627370496) / 2 powi (- 47)) = 4714705859903488"
    by (rule rhe_near) simp
  have r: "round_double (150870587516911625 / 4503599627370496) = 67 / 2"
    using round_double_eq [OF _ e _ m] by simp
  show ?thesis unfolding float_mul.simps to_double_def x r Let_def by simp
qed

lemma product_500_58: "float_mul (Double 500) (Double (8358680908399641 / 144115188075855872)) = Double (29)"
proof -
  have x: "500 * (8358680908399641 / 144115188075855872) = (1044835113549955125 / 36028797018963968 :: rat)" by simp
  have e: "ilog2 \<bar>1044835113549955125 / 36028797018963968 :: rat\<bar> = 4" by (rule ilog2_eqI) simp_all
  have m: "round_half_even ((1044835113549955125 / 36028797018963968) / 2 powi (- 48)) = 8162774324609024"
    by (rule rhe_near) simp
  have r: "round_double (1044835113549955125 / 36028797018963968) = 29"
    using round_double_eq [OF _ e _ m] by simp
  show ?thesis unfolding float_mul.simps to_double_def x r Let_def by simp
qed

lemma product_500_51: "float_mul (Double 500) (Double (7349874591868649 / 144115188075855872)) = Double (51 / 2)"
proof -
  have x: "500 * (7349874591868649 / 144115188075855872) = (918734323983581125 / 36028797018963968 :: rat)" by simp
  have e: "ilog2 \<bar>918734323983581125 / 36028797018963968 :: rat\<bar> = 4" by (rule ilog2_eqI) simp_all
  have m: "round_half_even ((918734323983581125 / 36028797018963968) / 2 powi (- 48)) = 7177611906121728"
    by (rule rhe_near) simp
  have r: "round_double (918734323983581125 / 36028797018963968) = 51 / 2"
    using round_double_eq [OF _ e _ m] by simp
  show ?thesis unfolding float_mul.simps to_double_def x r Let_def by simp
qed

lemma product_500_46: "float_mul (Double 500) (Double (3314649325744685 / 72057594037927936)) = Double (23)"
proof -
  have x: "500 * (3314649325744685 / 72057594037927936) = (414331165718085625 / 18014398509481984 :: rat)" by simp
  have e: "ilog2 \<bar>414331165718085625 / 18014398509481984 :: rat\<bar> = 4" by (rule ilog2_eqI) simp_all
  have m: "round_half_even ((414331165718085625 / 18014398509481984) / 2 powi (- 48)) = 6473924464345088"
    by (rule rhe_near) simp
  have r: "round_double (414331165718085625 / 18014398509481984) = 23"
    using round_double_eq [OF _ e _ m] by simp
  show ?thesis unfolding float_mul.simps to_double_def x r Let_def by simp
qed


section \<open>Properties of \<^verbatim>\<open>get_expected_counts\<close>\<close>

lemma BENFORD_PROPS_values:
  "BENFORD_PROPS =
     [Double (5422333951354077 / 18014398509481984), Double (3170534137668829 / 18014398509481984),
      Double (1 / 8), Double (3494793310839505 / 36028797018963968),
      Double (5692549928996307 / 72057594037927936), Double (1206964700135293 / 18014398509481984),
      Double (8358680908399641 / 144115188075855872), Double (7349874591868649 / 144115188075855872),
      Double (3314649325744685 / 72057594037927936)]"
  unfolding BENFORD_PROPS_def list.map
    literal_301 literal_176 literal_125 literal_97 literal_79 literal_67 literal_58 literal_51
    literal_46
  by (rule refl)

lemma BENFORD_PROPS_small:
  "p \<in> set BENFORD_PROPS \<Longrightarrow> \<exists>v. p = Double v \<and> \<bar>v\<bar> \<le> 1 / 2"
  unfolding BENFORD_PROPS_values by auto

lemma list_results_map_Inr: "list_results (map (\<lambda>x. Inr (f x)) xs) = Inr (map f xs)"
  by (induction xs) simp_all

lemma get_expected_counts_finite:
  assumes "float_of_int n = Inr (Double r)" "\<bar>r\<bar> < 2 ^ 1024"
  shows "get_expected_counts n =
     Inr (map (\<lambda>p. case p of Double v \<Rightarrow> round_half_even (round_double (r * v)) | _ \<Rightarrow> 0)
            BENFORD_PROPS)"
proof -
  have "map (\<lambda>prop. case float_of_int n of Inl e \<Rightarrow> Inl e | Inr x \<Rightarrow> py_round (float_mul x prop))
          BENFORD_PROPS =
        map (\<lambda>p. Inr (case p of Double v \<Rightarrow> round_half_even (round_double (r * v)) | _ \<Rightarrow> 0))
          BENFORD_PROPS"
  proof (rule map_cong [OF refl])
    fix p assume "p \<in> set BENFORD_PROPS"
    then obtain v where v: "p = Double v" "\<bar>v\<bar> \<le> 1 / 2"
      using BENFORD_PROPS_small by blast
    show "(case float_of_int n of Inl e \<Rightarrow> Inl e | Inr x \<Rightarrow> py_round (float_mul x p)) =
        Inr (case p of Double v \<Rightarrow> round_half_even (round_double (r * v)) | _ \<Rightarrow> 0)"
      using assms v by (simp add: float_mul_small del: float_mul.simps(1))
  qed
  then show ?thesis
    unfolding get_expected_counts_def by (simp only: list_results_map_Inr)
qed

lemma get_expected_counts_overflow:
  "float_of_int n = Inl e \<Longrightarrow> get_expected_counts n = Inl e"
  by (simp add: get_expected_counts_def BENFORD_PROPS_def)

lemma float_of_int_2_1024: "float_of_int (2 ^ 1024) = Inl OverflowError"
proof -
  have e: "ilog2 \<bar>2 ^ 1024 :: rat\<bar> = 1024" by (rule ilog2_eqI) simp_all
  have "(2 ^ 1024 :: rat) / 2 powi 972 = of_int (2 ^ 52)" by simp
  then have m: "round_half_even (2 ^ 1024 / 2 powi 972) = 2 ^ 52" by (simp only: rhe_int)
  have "round_double (2 ^ 1024) = of_int (2 ^ 52) * 2 powi 972"
    by (rule round_double_eq [OF _ e _ m]) simp_all
  then have "round_double (2 ^ 1024) = 2 ^ 1024" by simp
  then have "round_double (of_int (2 ^ 1024)) = 2 ^ 1024" by simp
  then show ?thesis unfolding float_of_int_def Let_def by simp
qed

lemma rhe_numeral: "round_half_even (numeral k) = numeral k"
  using rhe_int [of "numeral k"] by simp

lemma get_expected_counts_1000:
  "get_expected_counts 1000 = Inr [301, 176, 125, 97, 79, 67, 58, 51, 46]"
proof -
  have f: "float_of_int 1000 = Inr (Double 1000)"
    using float_of_int_exact [of 1000] by simp
  show ?thesis
    unfolding get_expected_counts_def f BENFORD_PROPS_values list.map sum.case
      product_1000_301 product_1000_176 product_1000_125 product_1000_97 product_1000_79
      product_1000_67 product_1000_58 product_1000_51 product_1000_46
    by (simp add: rhe_numeral)
qed

lemma rhe_half_numerals:
  "round_half_even (301 / 2) = 150" "round_half_even (125 / 2) = 62"
  "round_half_even (97 / 2) = 48" "round_half_even (79 / 2) = 40"
  "round_half_even (67 / 2) = 34" "round_half_even (51 / 2) = 26"
  using rhe_tie [of 150] rhe_tie [of 62] rhe_tie [of 48] rhe_tie [of 39] rhe_tie [of 33]
    rhe_tie [of 25]
  by simp_all

lemma get_expected_counts_500:
  "get_expected_counts 500 = Inr [150, 88, 62, 48, 40, 34, 29, 26, 23]"
proof -
  have f: "float_of_int 500 = Inr (Double 500)"
    using float_of_int_exact [of 500] by simp
  show ?thesis
    unfolding get_expected_counts_def f BENFORD_PROPS_values list.map sum.case
      product_500_301 product_500_176 product_500_125 product_500_97 product_500_79
      product_500_67 product_500_58 product_500_51 product_500_46
    by (simp add: rhe_numeral rhe_half_numerals)
qed

lemma length_BENFORD_PROPS: "length BENFORD_PROPS = 9"
  by (simp add: BENFORD_PROPS_def)

lemma get_expected_counts_nth:
  assumes "float_of_int n = Inr x"
  shows "\<exists>cs. get_expected_counts n = Inr cs \<and> length cs = 9 \<and>
     (\<forall>i<9. py_round (float_mul x (BENFORD_PROPS ! i)) = Inr (cs ! i))"
proof -
  from float_of_int_cases [OF assms] obtain r where r: "x = Double r" "\<bar>r\<bar> < 2 ^ 1024" by blast
  let ?g = "\<lambda>p. case p of Double v \<Rightarrow> round_half_even (round_double (r * v)) | _ \<Rightarrow> 0"
  let ?cs = "map ?g BENFORD_PROPS"
  have 1: "get_expected_counts n = Inr ?cs"
    using assms r by (intro get_expected_counts_finite) simp_all
  have 2: "length ?cs = 9" by (simp add: length_BENFORD_PROPS)
  have 3: "py_round (float_mul x (BENFORD_PROPS ! i)) = Inr (?cs ! i)" if "i < 9" for i
  proof -
    have "BENFORD_PROPS ! i \<in> set BENFORD_PROPS"
      using that by (intro nth_mem) (simp add: length_BENFORD_PROPS)
    then obtain v where v: "BENFORD_PROPS ! i = Double v" "\<bar>v\<bar> \<le> 1 / 2"
      using BENFORD_PROPS_small by blast
    have "?cs ! i = ?g (BENFORD_PROPS ! i)"
      using that by (intro nth_map) (simp add: length_BENFORD_PROPS)
    then show ?thesis
      using v r by (simp add: float_mul_small del: float_mul.simps(1))
  qed
  from 1 2 3 show ?thesis by blast
qed

lemma product_2500_51: "float_mul (Double 2500) (Double (7349874591868649 / 144115188075855872)) = Double (8972014882652159 / 70368744177664)"
proof -
  have x: "2500 * (7349874591868649 / 144115188075855872) = (4593671619917905625 / 36028797018963968 :: rat)" by simp
  have e: "ilog2 \<bar>4593671619917905625 / 36028797018963968 :: rat\<bar> = 6" by (rule ilog2_eqI) simp_all
  have m: "round_half_even ((4593671619917905625 / 36028797018963968) / 2 powi (- 46)) = 8972014882652159"
    by (rule rhe_near) simp
  have r: "round_double (4593671619917905625 / 36028797018963968) = 8972014882652159 / 70368744177664"
    using round_double_eq [OF _ e _ m] by simp
  show ?thesis unfolding float_mul.simps to_double_def x r Let_def by simp
qed

lemma product_2500_301: "float_mul (Double 2500) (Double (5422333951354077 / 18014398509481984)) = Double (1505 / 2)"
proof -
  have x: "2500 * (5422333951354077 / 18014398509481984) = (3388958719596298125 / 4503599627370496 :: rat)" by simp
  have e: "ilog2 \<bar>3388958719596298125 / 4503599627370496 :: rat\<bar> = 9" by (rule ilog2_eqI) simp_all
  have m: "round_half_even ((3388958719596298125 / 4503599627370496) / 2 powi (- 43)) = 6619059999211520"
    by (rule rhe_near) simp
  have r: "round_double (3388958719596298125 / 4503599627370496) = 1505 / 2"
    using round_double_eq [OF _ e _ m] by simp
  show ?thesis unfolding float_mul.simps to_double_def x r Let_def by simp
qed

lemma product_2500_176: "float_mul (Double 2500) (Double (3170534137668829 / 18014398509481984)) = Double (440)"
proof -
  have x: "2500 * (3170534137668829 / 18014398509481984) = (1981583836043018125 / 4503599627370496 :: rat)" by simp
  have e: "ilog2 \<bar>1981583836043018125 / 4503599627370496 :: rat\<bar> = 8" by (rule ilog2_eqI) simp_all
  have m: "round_half_even ((1981583836043018125 / 4503599627370496) / 2 powi (- 44)) = 7740561859543040"
    by (rule rhe_near) simp
  have r: "round_double (1981583836043018125 / 4503599627370496) = 440"
    using round_double_eq [OF _ e _ m] by simp
  show ?thesis unfolding float_mul.simps to_double_def x r Let_def by simp
qed

lemma product_2500_125: "float_mul (Double 2500) (Double (1 / 8)) = Double (625 / 2)"
proof -
  have x: "2500 * (1 / 8) = (625 / 2 :: rat)" by simp
  have e: "ilog2 \<bar>625 / 2 :: rat\<bar> = 8" by (rule ilog2_eqI) simp_all
  have m: "round_half_even ((625 / 2) / 2 powi (- 44)) = 5497558138880000"
    by (rule rhe_near) simp
  have r: "round_double (625 / 2) = 625 / 2"
    using round_double_eq [OF _ e _ m] by simp
  show ?thesis unfolding float_mul.simps to_double_def x r Let_def by simp
qed

lemma product_2500_97: "float_mul (Double 2500) (Double (3494793310839505 / 36028797018963968)) = Double (485 / 2)"
proof -
  have x: "2500 * (3494793310839505 / 36028797018963968) = (2184245819274690625 / 9007199254740992 :: rat)" by simp
  have e: "ilog2 \<bar>2184245819274690625 / 9007199254740992 :: rat\<bar> = 7" by (rule ilog2_eqI) simp_all
  have m: "round_half_even ((2184245819274690625 / 9007199254740992) / 2 powi (- 45)) = 8532210231541760"
    by (rule rhe_near) simp
  have r: "round_double (2184245819274690625 / 9007199254740992) = 485 / 2"
    using round_double_eq [OF _ e _ m] by simp
  show ?thesis unfolding float_mul.simps to_double_def x r Let_def by simp
qed

lemma product_2500_79: "float_mul (Double 2500) (Double (5692549928996307 / 72057594037927936)) = Double (395 / 2)"
proof -
  have x: "2500 * (5692549928996307 / 72057594037927936) = (3557843705622691875 / 18014398509481984 :: rat)" by simp
  have e: "ilog2 \<bar>3557843705622691875 / 18014398509481984 :: rat\<bar> = 7" by (rule ilog2_eqI) simp_all
  have m: "round_half_even ((3557843705622691875 / 18014398509481984) / 2 powi (- 45)) = 6948913487544320"
    by (rule rhe_near) simp
  have r: "round_double (3557843705622691875 / 18014398509481984) = 395 / 2"
    using round_double_eq [OF _ e _ m] by simp
  show ?thesis unfolding float_mul.simps to_double_def x r Let_def by simp
qed

lemma product_2500_67: "float_mul (Double 2500) (Double (1206964700135293 / 18014398509481984)) = Double (335 / 2)"
proof -
  have x: "2500 * (1206964700135293 / 18014398509481984) = (754352937584558125 / 4503599627370496 :: rat)" by simp
  have e: "ilog2 \<bar>754352937584558125 / 4503599627370496 :: rat\<bar> = 7" by (rule ilog2_eqI) simp_all
  have m: "round_half_even ((754352937584558125 / 4503599627370496) / 2 powi (- 45)) = 5893382324879360"
    by (rule rhe_near) simp
  have r: "round_double (754352937584558125 / 4503599627370496) = 335 / 2"
    using round_double_eq [OF _ e _ m] by simp
  show ?thesis unfolding float_mul.simps to_double_def x r Let_def by simp
qed

lemma product_2500_58: "float_mul (Double 2500) (Double (8358680908399641 / 144115188075855872)) = Double (145)"
proof -
  have x: "2500 * (8358680908399641 / 144115188075855872) = (5224175567749775625 / 36028797018963968 :: rat)" by simp
  have e: "ilog2 \<bar>5224175567749775625 / 36028797018963968 :: rat\<bar> = 7" by (rule ilog2_eqI) simp_all
  have m: "round_half_even ((5224175567749775625 / 36028797018963968) / 2 powi (- 45)) = 5101733952880640"
    by (rule rhe_near) simp
  have r: "round_double (5224175567749775625 / 36028797018963968) = 145"
    using round_double_eq [OF _ e _ m] by simp
  show ?thesis unfolding float_mul.simps to_double_def x r Let_def by simp
qed

lemma product_2500_46: "float_mul (Double 2500) (Double (3314649325744685 / 72057594037927936)) = Double (115)"
proof -
  have x: "2500 * (3314649325744685 / 72057594037927936) = (2071655828590428125 / 18014398509481984 :: rat)" by simp
  have e: "ilog2 \<bar>2071655828590428125 / 18014398509481984 :: rat\<bar> = 6" by (rule ilog2_eqI) simp_all
  have m: "round_half_even ((2071655828590428125 / 18014398509481984) / 2 powi (- 46)) = 8092405580431360"
    by (rule rhe_near) simp
  have r: "round_double (2071655828590428125 / 18014398509481984) = 115"
    using round_double_eq [OF _ e _ m] by simp
  show ?thesis unfolding float_mul.simps to_double_def x r Let_def by simp
qed

lemma rhe_half_numerals_2500:
  "round_half_even (1505 / 2) = 752" "round_half_even (625 / 2) = 312"
  "round_half_even (485 / 2) = 242" "round_half_even (395 / 2) = 198"
  "round_half_even (335 / 2) = 168"
  using rhe_tie [of 752] rhe_tie [of 312] rhe_tie [of 242] rhe_tie [of 197] rhe_tie [of 167]
  by simp_all

lemma rhe_below_tie: "round_half_even (8972014882652159 / 70368744177664) = 127"
  by (rule rhe_near) simp

lemma get_expected_counts_2500:
  "get_expected_counts 2500 = Inr [752, 440, 312, 242, 198, 168, 145, 127, 115]"
proof -
  have f: "float_of_int 2500 = Inr (Double 2500)"
    using float_of_int_exact [of 2500] by simp
  show ?thesis
    unfolding get_expected_counts_def f BENFORD_PROPS_values list.map sum.case
      product_2500_301 product_2500_176 product_2500_125 product_2500_97 product_2500_79
      product_2500_67 product_2500_58 product_2500_51 product_2500_46
    by (simp add: rhe_numeral rhe_half_numerals_2500 rhe_below_tie)
qed

text \<open>
  Claim C4, as stated, fails: the product \<^verbatim>\<open>n_observations * prop\<close> converts the integer
  to a float first, and for a total of \<open>2\<^sup>1\<^sup>0\<^sup>2\<^sup>4\<close> the conversion raises \<^verbatim>\<open>OverflowError\<close>
  (int too large to convert to float), so no sequence is returned.
\<close>

theorem C4_counterexample: "get_expected_counts (2 ^ 1024) = Inl OverflowError"
  by (rule get_expected_counts_overflow [OF float_of_int_2_1024])

text \<open>
  Claim C4, amended. For every integer total that converts to a float, and every total below
  \<open>2\<^sup>5\<^sup>3\<close> in magnitude does so exactly, \<^verbatim>\<open>get_expected_counts\<close> returns exactly nine elements,
  the element at position \<open>i\<close> being \<^verbatim>\<open>round\<close> of the float product of the total and the
  \<open>i\<close>-th Benford proportion. For the total 1000 the counts are
  301, 176, 125, 97, 79, 67, 58, 51, 46; they sum to 1000, which is within 9 of the total.
\<close>

theorem C4_expected_counts:
  "(float_of_int n = Inr x \<longrightarrow>
      (\<exists>cs. get_expected_counts n = Inr cs \<and> length cs = 9 \<and>
         (\<forall>i<9. py_round (float_mul x (BENFORD_PROPS ! i)) = Inr (cs ! i)))) \<and>
   (\<bar>n\<bar> < 2 ^ 53 \<longrightarrow> float_of_int n = Inr (Double (of_int n))) \<and>
   (\<exists>cs. get_expected_counts 1000 = Inr cs \<and> cs = [301, 176, 125, 97, 79, 67, 58, 51, 46] \<and>
      \<bar>sum_list cs - 1000\<bar> \<le> 9)"
proof (intro conjI impI)
  assume "float_of_int n = Inr x"
  then show "\<exists>cs. get_expected_counts n = Inr cs \<and> length cs = 9 \<and>
      (\<forall>i<9. py_round (float_mul x (BENFORD_PROPS ! i)) = Inr (cs ! i))"
    by (rule get_expected_counts_nth)
next
  assume "\<bar>n\<bar> < 2 ^ 53"
  then show "float_of_int n = Inr (Double (of_int n))" by (rule float_of_int_exact)
next
  show "\<exists>cs. get_expected_counts 1000 = Inr cs \<and> cs = [301, 176, 125, 97, 79, 67, 58, 51, 46] \<and>
      \<bar>sum_list cs - 1000\<bar> \<le> 9"
    using get_expected_counts_1000 by simp
qed

theorem C4_witness:
  "\<bar>1000 :: int\<bar> < 2 ^ 53 \<and> float_of_int 1000 = Inr (Double 1000) \<and>
   (\<exists>cs. get_expected_counts 1000 = Inr cs \<and> length cs = 9)"
proof -
  have a: "\<bar>1000 :: int\<bar> < 2 ^ 53" by simp
  from C4_expected_counts [of 1000 "Double 1000"] a
  have b: "float_of_int 1000 = Inr (Double 1000)" by simp
  from C4_expected_counts [of 1000 "Double 1000"] b
  have "\<exists>cs. get_expected_counts 1000 = Inr cs \<and> length cs = 9" by blast
  with a b show ?thesis by blast
qed

text \<open>
  Claim C10, as stated, fails. With the proportion of digit 8 read as the decimal 0.051, the total
  2500 has the product 127.5, exactly halfway between 127 and 128, and the nearest even integer
  is 128. The code multiplies by the binary64 number nearest to 0.051; the float product is the
  binary64 number just below 127.5, and the expected count is 127.
\<close>

theorem C10_counterexample:
  "2500 * (51 / 1000) = (127 + 1 / 2 :: rat) \<and>
   round_half_even (2500 * (51 / 1000)) = 128 \<and>
   get_expected_counts 2500 = Inr [752, 440, 312, 242, 198, 168, 145, 127, 115] \<and>
   [752, 440, 312, 242, 198, 168, 145, 127, 115] ! 7 = (127 :: int)"
proof -
  have "round_half_even (2500 * (51 / 1000)) = 128"
    using rhe_tie [of 127] by simp
  then show ?thesis using get_expected_counts_2500 by simp
qed

text \<open>
  Claim C10, amended. Whenever the float product of the total and a Benford proportion, as the
  code computes it in binary64, lies exactly halfway between the integers \<open>k\<close> and \<open>k + 1\<close>, the
  expected count is the even one of the two. For an even \<open>k \<ge> 0\<close> this is \<open>k\<close>, where rounding
  half away from zero would give \<open>k + 1\<close>.
\<close>

theorem C10_round_half_even:
  "float_of_int n = Inr x \<Longrightarrow> get_expected_counts n = Inr cs \<Longrightarrow> i < 9 \<Longrightarrow>
   float_mul x (BENFORD_PROPS ! i) = Double (of_int k + 1 / 2) \<Longrightarrow>
   cs ! i = (if even k then k else k + 1) \<and> even (cs ! i) \<and>
   (0 \<le> k \<and> even k \<longrightarrow> cs ! i \<noteq> round_half_away (of_int k + 1 / 2))"
proof -
  assume f: "float_of_int n = Inr x" and g: "get_expected_counts n = Inr cs" and i: "i < 9"
    and m: "float_mul x (BENFORD_PROPS ! i) = Double (of_int k + 1 / 2)"
  from get_expected_counts_nth [OF f] g i
  have "py_round (float_mul x (BENFORD_PROPS ! i)) = Inr (cs ! i)" by auto
  with m have c: "cs ! i = (if even k then k else k + 1)" by (simp add: rhe_tie)
  have "\<lfloor>of_int k + 1 / 2 + 1 / 2 :: rat\<rfloor> = k + 1" by (intro floor_unique) auto
  then have "round_half_away (of_int k + 1 / 2) = k + 1" if "0 \<le> k"
    using that by (simp add: round_half_away_def)
  with c show ?thesis by auto
qed

theorem C10_witness:
  "float_of_int 500 = Inr (Double 500) \<and>
   get_expected_counts 500 = Inr [150, 88, 62, 48, 40, 34, 29, 26, 23] \<and>
   float_mul (Double 500) (BENFORD_PROPS ! 2) = Double (of_int 62 + 1 / 2) \<and>
   [150, 88, 62, 48, 40, 34, 29, 26, 23] ! 2 = (62::int) \<and>
   [150, 88, 62, 48, 40, 34, 29, 26, 23] ! 2 \<noteq> round_half_away (of_int 62 + 1 / 2)"
proof -
  have a: "float_of_int 500 = Inr (Double 500)"
    using float_of_int_exact [of 500] by simp
  have b: "get_expected_counts 500 = Inr [150, 88, 62, 48, 40, 34, 29, 26, 23]"
    by (rule get_expected_counts_500)
  have "BENFORD_PROPS ! 2 = Double (1 / 8)"
    unfolding BENFORD_PROPS_values by simp
  then have c: "float_mul (Double 500) (BENFORD_PROPS ! 2) = Double (of_int 62 + 1 / 2)"
    using product_500_125 by simp
  from C10_round_half_even [OF a b _ c]
  have "[150, 88, 62, 48, 40, 34, 29, 26, 23] ! 2 = (62::int) \<and>
    [150, 88, 62, 48, 40, 34, 29, 26, 23] ! 2 \<noteq> round_half_away (of_int 62 + 1 / 2)"
    by simp
  with a b c show ?thesis by blast
qed

section \<open>Properties of \<^verbatim>\<open>chi_squared_test\<close>\<close>

lemma to_double_0: "to_double 0 = Double 0"
  by (simp add: to_double_def round_double_def)

lemma to_double_int: "\<bar>n\<bar> < 2 ^ 53 \<Longrightarrow> to_double (of_int n) = Double (of_int n)"
proof -
  assume a: "\<bar>n\<bar> < 2 ^ 53"
  have "(of_int \<bar>n\<bar> :: rat) < of_int (2 ^ 53)" using a by (simp only: of_int_less_iff)
  then have "\<bar>of_int n :: rat\<bar> < 2 ^ 1024" by simp
  then have "\<not> 2 ^ 1024 \<le> (of_int n :: rat)" "\<not> (of_int n :: rat) \<le> - (2 ^ 1024)"
    by linarith+
  then show ?thesis by (simp add: to_double_def round_double_int [OF a])
qed

lemma to_double_numeral:
  "(numeral k :: int) < 2 ^ 53 \<Longrightarrow> to_double (numeral k) = Double (numeral k)"
  using to_double_int [of "numeral k"] by simp

lemma to_double_1: "to_double 1 = Double 1"
  using to_double_int [of 1] by simp

lemma round_double_nonneg: "0 \<le> x \<Longrightarrow> 0 \<le> round_double x"
  by (simp add: round_double_def Let_def rhe_nonneg)

lemma to_double_nonneg:
  "0 \<le> x \<Longrightarrow> to_double x = PosInf \<or> (\<exists>r\<ge>0. to_double x = Double r)"
  using round_double_nonneg [of x] by (auto simp: to_double_def Let_def)

lemma float_sub_self: "float_sub (Double r) (Double r) = Double 0"
  by (simp add: float_sub_def to_double_0)

lemma pearson_term_self: "r \<noteq> 0 \<Longrightarrow> pearson_term (Double r, Double r) = Double 0"
  by (simp add: pearson_term_def float_sub_self to_double_0)

lemma pearson_term_zero_zero: "pearson_term (Double 0, Double 0) = NotANumber"
  by (simp add: pearson_term_def float_sub_self to_double_0 inf_of_sign_def)

lemma square_cases:
  "float_mul d d = NotANumber \<or> float_mul d d = PosInf \<or> (\<exists>r\<ge>0. float_mul d d = Double r)"
proof (cases d)
  case (Double x)
  then show ?thesis using to_double_nonneg [of "x * x"] by auto
qed (simp_all add: inf_of_sign_def)

lemma pearson_term_zero:
  "pearson_term (a, Double 0) = PosInf \<or> pearson_term (a, Double 0) = NotANumber"
proof -
  let ?d = "float_sub a (Double 0)"
  from square_cases [of ?d] show ?thesis
    by (auto simp: pearson_term_def inf_of_sign_def)
qed

lemma float_add_not_finite_left:
  "a = PosInf \<or> a = NotANumber \<Longrightarrow> float_add a b = PosInf \<or> float_add a b = NotANumber"
  by (cases b) auto

lemma float_add_not_finite_right:
  "b = PosInf \<or> b = NotANumber \<Longrightarrow> float_add a b = PosInf \<or> float_add a b = NotANumber"
  by (cases a) auto

lemma float_add_nan_left: "float_add NotANumber b = NotANumber"
  by simp

lemma float_add_nan_right: "float_add a NotANumber = NotANumber"
  by (cases a) simp_all

lemma float_less_nan_right: "float_less a NotANumber = False"
  by (cases a) simp_all

subsection \<open>The sum of an array\<close>

lemma acc8_length: "length r = 8 \<Longrightarrow> acc8 r xs = (r', rest) \<Longrightarrow> length r' = 8"
proof (induction r xs rule: acc8.induct)
  case (1 r xs)
  show ?case
  proof (cases "length xs < 8")
    case True
    with "1.prems" show ?thesis by (simp add: acc8.simps [of r xs])
  next
    case False
    then have "acc8 (map2 float_add r (take 8 xs)) (drop 8 xs) = (r', rest)"
      using "1.prems" by (simp add: acc8.simps [of r xs])
    moreover have "length (map2 float_add r (take 8 xs)) = 8"
      using False "1.prems" by simp
    ultimately show ?thesis using False by (intro "1.IH") auto
  qed
qed

text \<open>All elements zero: the sum is zero.\<close>

lemma foldl_float_add_zero:
  "\<forall>t \<in> set ts. t = Double 0 \<Longrightarrow> foldl float_add (Double 0) ts = Double 0"
  by (induction ts) (simp_all add: to_double_0)

lemma acc8_zero:
  "\<forall>x \<in> set r. x = Double 0 \<Longrightarrow> \<forall>x \<in> set xs. x = Double 0 \<Longrightarrow> acc8 r xs = (r', rest) \<Longrightarrow>
   (\<forall>x \<in> set r'. x = Double 0) \<and> (\<forall>x \<in> set rest. x = Double 0)"
proof (induction r xs rule: acc8.induct)
  case (1 r xs)
  show ?case
  proof (cases "length xs < 8")
    case True
    with "1.prems" show ?thesis by (simp add: acc8.simps [of r xs])
  next
    case False
    then have a: "acc8 (map2 float_add r (take 8 xs)) (drop 8 xs) = (r', rest)"
      using "1.prems" by (simp add: acc8.simps [of r xs])
    have b: "\<forall>x \<in> set (map2 float_add r (take 8 xs)). x = Double 0"
    proof
      fix y assume "y \<in> set (map2 float_add r (take 8 xs))"
      then obtain p q where pq: "(p, q) \<in> set (zip r (take 8 xs))" "y = float_add p q" by auto
      from pq(1) have "p \<in> set r" "q \<in> set (take 8 xs)"
        by (auto dest: set_zip_leftD set_zip_rightD)
      then have "p = Double 0" "q = Double 0" using "1.prems"(1,2) by (auto dest: in_set_takeD)
      with pq(2) show "y = Double 0" by (simp add: to_double_0)
    qed
    have c: "\<forall>x \<in> set (drop 8 xs). x = Double 0"
      using "1.prems"(2) by (auto dest: in_set_dropD)
    from False b c a show ?thesis by (intro "1.IH") auto
  qed
qed

lemma tree8_zero: "length r = 8 \<Longrightarrow> \<forall>x \<in> set r. x = Double 0 \<Longrightarrow> tree8 r = Double 0"
proof -
  assume "length r = 8" and z: "\<forall>x \<in> set r. x = Double 0"
  then have "r ! i = Double 0" if "i < 8" for i using that nth_mem [of i r] by simp
  then have "r ! 0 = Double 0" "r ! 1 = Double 0" "r ! 2 = Double 0" "r ! 3 = Double 0"
    "r ! 4 = Double 0" "r ! 5 = Double 0" "r ! 6 = Double 0" "r ! 7 = Double 0"
    by simp_all
  then show ?thesis unfolding tree8_def by (simp add: to_double_0)
qed

lemma pairwise_sum_zero: "\<forall>x \<in> set a. x = Double 0 \<Longrightarrow> pairwise_sum a = Double 0"
proof (induction a rule: pairwise_sum.induct)
  case (1 a)
  show ?case
  proof (cases "length a < 8")
    case True
    then show ?thesis using "1.prems"
      by (simp add: pairwise_sum.simps [of a] foldl_float_add_zero)
  next
    case False
    note big = this
    show ?thesis
    proof (cases "length a \<le> 128")
      case True
      obtain r rest where ar: "acc8 (take 8 a) (drop 8 a) = (r, rest)" by force
      have t: "\<forall>x \<in> set (take 8 a). x = Double 0" using "1.prems" by (auto dest: in_set_takeD)
      have d: "\<forall>x \<in> set (drop 8 a). x = Double 0" using "1.prems" by (auto dest: in_set_dropD)
      from acc8_zero [OF t d ar] have z: "\<forall>x \<in> set r. x = Double 0" "\<forall>x \<in> set rest. x = Double 0"
        by auto
      have "length (take 8 a) = 8" using big by simp
      from acc8_length [OF this ar] have "length r = 8" .
      then have "tree8 r = Double 0" using z(1) by (rule tree8_zero)
      then show ?thesis using big True ar z(2)
        by (simp add: pairwise_sum.simps [of a] foldl_float_add_zero)
    next
      case False
      let ?n2 = "length a div 2 - length a div 2 mod 8"
      have "\<forall>x \<in> set (take ?n2 a). x = Double 0" using "1.prems" by (auto dest: in_set_takeD)
      with big False have 1: "pairwise_sum (take ?n2 a) = Double 0" by (intro "1.IH"(1)) auto
      have "\<forall>x \<in> set (drop ?n2 a). x = Double 0" using "1.prems" by (auto dest: in_set_dropD)
      with big False have 2: "pairwise_sum (drop ?n2 a) = Double 0" by (intro "1.IH"(2)) auto
      show ?thesis using big False 1 2
        by (simp add: pairwise_sum.simps [of a] to_double_0)
    qed
  qed
qed

lemma np_sum_zero: "\<forall>x \<in> set a. x = Double 0 \<Longrightarrow> np_sum a = Double 0"
  by (simp add: np_sum_def pairwise_sum_zero to_double_0)

text \<open>
  A property that a sum passes down to both summands is passed down from the sum of an
  array to every element.
\<close>

lemma foldl_down:
  assumes "\<And>a b. R (float_add a b) \<Longrightarrow> R a \<and> R b"
  shows "R (foldl float_add s xs) \<Longrightarrow> R s \<and> (\<forall>x \<in> set xs. R x)"
proof (induction xs arbitrary: s)
  case Nil
  then show ?case by simp
next
  case (Cons x xs)
  from Cons.prems have "R (foldl float_add (float_add s x) xs)" by simp
  from Cons.IH [OF this] have "R (float_add s x)" "\<forall>y \<in> set xs. R y" by auto
  with assms [of s x] show ?case by simp
qed

lemma map2_down:
  assumes "\<And>a b. R (float_add a b) \<Longrightarrow> R a \<and> R b"
  shows "length r = length b \<Longrightarrow> \<forall>y \<in> set (map2 float_add r b). R y \<Longrightarrow>
    (\<forall>x \<in> set r. R x) \<and> (\<forall>x \<in> set b. R x)"
proof (induction r b rule: list_induct2)
  case Nil
  then show ?case by simp
next
  case (Cons x xs y ys)
  then show ?case using assms [of x y] by simp
qed

lemma acc8_down:
  assumes "\<And>a b. R (float_add a b) \<Longrightarrow> R a \<and> R b"
  shows "length r = 8 \<Longrightarrow> acc8 r xs = (r', rest) \<Longrightarrow> \<forall>x \<in> set r'. R x \<Longrightarrow>
    \<forall>x \<in> set rest. R x \<Longrightarrow> (\<forall>x \<in> set r. R x) \<and> (\<forall>x \<in> set xs. R x)"
proof (induction r xs rule: acc8.induct)
  case (1 r xs)
  show ?case
  proof (cases "length xs < 8")
    case True
    with "1.prems" show ?thesis by (simp add: acc8.simps [of r xs])
  next
    case False
    let ?r = "map2 float_add r (take 8 xs)"
    have a: "acc8 ?r (drop 8 xs) = (r', rest)"
      using False "1.prems" by (simp add: acc8.simps [of r xs])
    have l: "length r = length (take 8 xs)" using False "1.prems" by simp
    then have l': "length ?r = 8" using "1.prems" by simp
    from False l' a "1.prems"(3,4)
    have "(\<forall>x \<in> set ?r. R x) \<and> (\<forall>x \<in> set (drop 8 xs). R x)" by (intro "1.IH") auto
    moreover from this map2_down [where R = R, OF assms l]
    have "(\<forall>x \<in> set r. R x) \<and> (\<forall>x \<in> set (take 8 xs). R x)" by blast
    moreover have "set xs = set (take 8 xs) \<union> set (drop 8 xs)"
      by (simp flip: set_append)
    ultimately show ?thesis by auto
  qed
qed

lemma tree8_down:
  assumes "\<And>a b. R (float_add a b) \<Longrightarrow> R a \<and> R b"
  shows "length r = 8 \<Longrightarrow> R (tree8 r) \<Longrightarrow> \<forall>x \<in> set r. R x"
proof -
  assume l: "length r = 8" and t: "R (tree8 r)"
  from t have "R (float_add (float_add (r ! 0) (r ! 1)) (float_add (r ! 2) (r ! 3)))"
    "R (float_add (float_add (r ! 4) (r ! 5)) (float_add (r ! 6) (r ! 7)))"
    unfolding tree8_def using assms by blast+
  then have "R (float_add (r ! 0) (r ! 1))" "R (float_add (r ! 2) (r ! 3))"
    "R (float_add (r ! 4) (r ! 5))" "R (float_add (r ! 6) (r ! 7))"
    using assms by blast+
  then have e: "R (r ! 0)" "R (r ! 1)" "R (r ! 2)" "R (r ! 3)" "R (r ! 4)" "R (r ! 5)" "R (r ! 6)"
    "R (r ! 7)"
    using assms by blast+
  show ?thesis
  proof
    fix x assume "x \<in> set r"
    then obtain i where i: "i < 8" "x = r ! i" using l by (auto simp: in_set_conv_nth)
    then have "i = 0 \<or> i = 1 \<or> i = 2 \<or> i = 3 \<or> i = 4 \<or> i = 5 \<or> i = 6 \<or> i = 7" by arith
    with e i(2) show "R x" by auto
  qed
qed

lemma pairwise_sum_down:
  assumes "\<And>a b. R (float_add a b) \<Longrightarrow> R a \<and> R b"
  shows "R (pairwise_sum a) \<Longrightarrow> \<forall>x \<in> set a. R x"
proof (induction a rule: pairwise_sum.induct)
  case (1 a)
  show ?case
  proof (cases "length a < 8")
    case True
    with "1.prems" have "R (foldl float_add (Double 0) a)" by (simp add: pairwise_sum.simps [of a])
    from foldl_down [where R = R, OF assms this] show ?thesis by simp
  next
    case False
    note big = this
    show ?thesis
    proof (cases "length a \<le> 128")
      case True
      obtain r rest where ar: "acc8 (take 8 a) (drop 8 a) = (r, rest)" by force
      with big True "1.prems" have "R (foldl float_add (tree8 r) rest)"
        by (simp add: pairwise_sum.simps [of a])
      from foldl_down [where R = R, OF assms this] have t: "R (tree8 r)" and rest: "\<forall>x \<in> set rest. R x"
        by auto
      have l: "length (take 8 a) = 8" using big by simp
      from acc8_length [OF l ar] have "length r = 8" .
      from tree8_down [where R = R, OF assms this t] have "\<forall>x \<in> set r. R x" .
      from acc8_down [where R = R, OF assms l ar this rest]
      have "(\<forall>x \<in> set (take 8 a). R x) \<and> (\<forall>x \<in> set (drop 8 a). R x)" .
      moreover have "set a = set (take 8 a) \<union> set (drop 8 a)"
        by (simp flip: set_append)
      ultimately show ?thesis by auto
    next
      case False
      let ?n2 = "length a div 2 - length a div 2 mod 8"
      from big False "1.prems"
      have "R (float_add (pairwise_sum (take ?n2 a)) (pairwise_sum (drop ?n2 a)))"
        by (simp add: pairwise_sum.simps [of a])
      from assms [OF this] have l: "R (pairwise_sum (take ?n2 a))"
        and r: "R (pairwise_sum (drop ?n2 a))" by simp_all
      have "\<forall>x \<in> set (take ?n2 a). R x" by (rule "1.IH"(1) [OF big False l])
      moreover have "\<forall>x \<in> set (drop ?n2 a). R x" by (rule "1.IH"(2) [OF big False r])
      moreover have "set a = set (take ?n2 a) \<union> set (drop ?n2 a)"
        by (simp flip: set_append)
      ultimately show ?thesis by auto
    qed
  qed
qed

lemma np_sum_nan: "NotANumber \<in> set a \<Longrightarrow> np_sum a = NotANumber"
proof (rule ccontr)
  assume m: "NotANumber \<in> set a" and n: "np_sum a \<noteq> NotANumber"
  have d: "\<And>a b. float_add a b \<noteq> NotANumber \<Longrightarrow> a \<noteq> NotANumber \<and> b \<noteq> NotANumber"
    using float_add_nan_right by auto
  from n have "pairwise_sum a \<noteq> NotANumber"
    unfolding np_sum_def using float_add_nan_right by auto
  from pairwise_sum_down [where R = "\<lambda>x. x \<noteq> NotANumber", OF d this] m show False by blast
qed

lemma np_sum_not_finite:
  assumes "t \<in> set a" "t = PosInf \<or> t = NotANumber"
  shows "np_sum a = PosInf \<or> np_sum a = NotANumber"
proof (rule ccontr)
  let ?R = "\<lambda>x. \<not> (x = PosInf \<or> x = NotANumber)"
  assume n: "\<not> (np_sum a = PosInf \<or> np_sum a = NotANumber)"
  have d: "\<And>a b. ?R (float_add a b) \<Longrightarrow> ?R a \<and> ?R b"
    using float_add_not_finite_left float_add_not_finite_right by blast
  from n have "?R (pairwise_sum a)"
    unfolding np_sum_def using float_add_not_finite_right by blast
  from pairwise_sum_down [where R = ?R, OF d this] assms show False by blast
qed

subsection \<open>The check of the sums\<close>

lemma rtol_value: "rtol = Double (3022314549036573 / 302231454903657293676544)"
proof -
  have e: "ilog2 \<bar>1 / 100000000 :: rat\<bar> = - 27" by (rule ilog2_eqI) simp_all
  have m: "round_half_even ((1 / 100000000) / 2 powi (- 79)) = 6044629098073146"
    by (rule rhe_near) simp
  have r: "round_double (1 / 100000000) = 3022314549036573 / 302231454903657293676544"
    using round_double_eq [OF _ e _ m] by simp
  show ?thesis unfolding rtol_def to_double_def r Let_def by simp
qed

lemma to_double_fifth: "to_double (1 / 5) = Double (3602879701896397 / 18014398509481984)"
proof -
  have e: "ilog2 \<bar>1 / 5 :: rat\<bar> = - 3" by (rule ilog2_eqI) simp_all
  have m: "round_half_even ((1 / 5) / 2 powi (- 55)) = 7205759403792794"
    by (rule rhe_near) simp
  have r: "round_double (1 / 5) = 3602879701896397 / 18014398509481984"
    using round_double_eq [OF _ e _ m] by simp
  show ?thesis unfolding to_double_def r Let_def by simp
qed

lemma sums_disagree_same: "\<not> sums_disagree xs xs"
proof -
  have z: "\<not> float_less rtol (Double 0)" by (simp add: rtol_value)
  have "\<not> float_less rtol (float_div (float_abs (float_sub s s)) (float_min s s))" for s
  proof (cases s)
    case (Double r)
    then show ?thesis
      using z by (simp add: float_sub_self float_min_def inf_of_sign_def to_double_0
          float_less_nan_right)
  qed (simp_all add: float_sub_def float_less_nan_right)
  then show ?thesis by (simp add: sums_disagree_def Let_def)
qed

lemma np_sum_3_2: "np_sum [Double 3, Double 2] = Double 5"
  by (simp add: np_sum_def pairwise_sum.simps to_double_numeral)

lemma np_sum_3_3: "np_sum [Double 3, Double 3] = Double 6"
  by (simp add: np_sum_def pairwise_sum.simps to_double_numeral)

lemma np_sum_5_0: "np_sum [Double 5, Double 0] = Double 5"
  by (simp add: np_sum_def pairwise_sum.simps to_double_numeral)

lemma sums_agree_example: "\<not> sums_disagree [Double 3, Double 2] [Double 5, Double 0]"
  unfolding sums_disagree_def np_sum_3_2 np_sum_5_0 Let_def
  by (simp add: float_sub_self float_min_def to_double_0 rtol_value)

lemma sums_disagree_example: "sums_disagree [Double 3, Double 3] [Double 5, Double 0]"
  unfolding sums_disagree_def np_sum_3_3 np_sum_5_0 Let_def
  by (simp add: float_sub_def float_min_def to_double_1 to_double_fifth rtol_value)

subsection \<open>The test\<close>

lemma chi_squared_test_equal_length:
  "length actual = length expected \<Longrightarrow>
   chi_squared_test actual expected =
     (if sums_disagree actual expected then Inl SumMismatch
      else Inr (np_sum (map pearson_term (zip actual expected)),
                chi2_sf (np_sum (map pearson_term (zip actual expected)))
                  (int (length expected) - 1)))"
  by (simp add: chi_squared_test_def chisquare_def broadcast_def Let_def)

lemma chi_squared_test_nan:
  assumes "length actual = length expected" "\<not> sums_disagree actual expected"
    "NotANumber \<in> set (map pearson_term (zip actual expected))"
  shows "chi_squared_test actual expected = Inr (NotANumber, Prob NotANumber)"
  using assms(2) np_sum_nan [OF assms(3)]
  by (simp add: chi_squared_test_equal_length [OF assms(1)] chi2_sf_def)

lemma zero_term:
  assumes "length actual = length expected" "Double 0 \<in> set expected"
  shows "\<exists>t \<in> set (map pearson_term (zip actual expected)). t = PosInf \<or> t = NotANumber"
proof -
  from assms(2) obtain i where i: "i < length expected" "expected ! i = Double 0"
    by (auto simp: in_set_conv_nth)
  then have "(actual ! i, Double 0) \<in> set (zip actual expected)"
    using assms(1) by (auto simp: in_set_zip)
  then have "pearson_term (actual ! i, Double 0) \<in> set (map pearson_term (zip actual expected))"
    by (simp only: set_map) (rule imageI)
  then show ?thesis using pearson_term_zero [of "actual ! i"] by blast
qed

text \<open>
  Claim C2, as stated, fails: with no observations at all, so that every observed and every
  expected count is 0, \<^verbatim>\<open>chi_squared_test\<close> raises nothing and returns nan for the statistic
  and nan for the probability.
\<close>

theorem C2_counterexample:
  "chi_squared_test
     [Double 0, Double 0, Double 0, Double 0, Double 0, Double 0, Double 0, Double 0, Double 0]
     [Double 0, Double 0, Double 0, Double 0, Double 0, Double 0, Double 0, Double 0, Double 0] =
   Inr (NotANumber, Prob NotANumber)"
  by (rule chi_squared_test_nan) (simp_all add: sums_disagree_same pearson_term_zero_zero)

text \<open>
  Claim C2, amended. An expected count of 0 raises no error of its own. For sequences of equal
  length with an expected count of 0, \<^verbatim>\<open>chi_squared_test\<close> fails exactly when the sums of the
  two sequences disagree, with the library's \<^verbatim>\<open>ValueError\<close> for that; when the sums agree it
  returns, the statistic is \<open>+inf\<close> or nan and, for at least two counts, the probability is 0.0
  or nan.
\<close>

theorem C2_zero_expected_no_error:
  "length actual = length expected \<Longrightarrow> Double 0 \<in> set expected \<Longrightarrow>
   (sums_disagree actual expected \<longrightarrow> chi_squared_test actual expected = Inl SumMismatch) \<and>
   (\<not> sums_disagree actual expected \<longrightarrow>
      (\<exists>stat p. chi_squared_test actual expected = Inr (stat, p) \<and>
         (stat = PosInf \<or> stat = NotANumber) \<and>
         (2 \<le> length expected \<longrightarrow> p = Prob (Double 0) \<or> p = Prob NotANumber)))"
proof -
  assume len: "length actual = length expected" and z: "Double 0 \<in> set expected"
  let ?terms = "map pearson_term (zip actual expected)"
  let ?stat = "np_sum ?terms"
  let ?p = "chi2_sf ?stat (int (length expected) - 1)"
  from zero_term [OF len z] obtain t where "t \<in> set ?terms" "t = PosInf \<or> t = NotANumber"
    by blast
  then have s: "?stat = PosInf \<or> ?stat = NotANumber" by (rule np_sum_not_finite)
  then have p: "2 \<le> length expected \<longrightarrow> ?p = Prob (Double 0) \<or> ?p = Prob NotANumber"
    by (auto simp: chi2_sf_def)
  show ?thesis
    using s p by (simp add: chi_squared_test_equal_length [OF len])
qed

theorem C2_witness:
  "length [Double 3, Double 2] = length [Double 5, Double 0] \<and>
   Double 0 \<in> set [Double 5, Double 0] \<and>
   \<not> sums_disagree [Double 3, Double 2] [Double 5, Double 0] \<and>
   (\<exists>stat p. chi_squared_test [Double 3, Double 2] [Double 5, Double 0] = Inr (stat, p) \<and>
      (stat = PosInf \<or> stat = NotANumber)) \<and>
   sums_disagree [Double 3, Double 3] [Double 5, Double 0] \<and>
   chi_squared_test [Double 3, Double 3] [Double 5, Double 0] = Inl SumMismatch"
proof -
  have a: "length [Double 3, Double 2] = length [Double 5, Double 0]" by simp
  have a': "length [Double 3, Double 3] = length [Double 5, Double 0]" by simp
  have b: "Double 0 \<in> set [Double 5, Double 0]" by simp
  note c = sums_agree_example
  note d = sums_disagree_example
  from C2_zero_expected_no_error [OF a b] c
  have 1: "\<exists>stat p. chi_squared_test [Double 3, Double 2] [Double 5, Double 0] = Inr (stat, p) \<and>
      (stat = PosInf \<or> stat = NotANumber)" by blast
  from C2_zero_expected_no_error [OF a' b] d
  have 2: "chi_squared_test [Double 3, Double 3] [Double 5, Double 0] = Inl SumMismatch" by blast
  from a b c d 1 2 show ?thesis by blast
qed

text \<open>
  Claim C6, as stated, fails: a sequence that holds a 0 compared with itself gives the term
  \<open>0 / 0\<close>, so the statistic and the probability are nan, not 0.0 and 1.0.
\<close>

theorem C6_counterexample:
  "chi_squared_test [Double 5, Double 0] [Double 5, Double 0] = Inr (NotANumber, Prob NotANumber)"
  by (rule chi_squared_test_nan) (simp_all add: sums_disagree_same pearson_term_zero_zero)

text \<open>
  Claim C6, amended. For every sequence of at least two finite numbers, none of them 0,
  \<^verbatim>\<open>chi_squared_test\<close> applied to the sequence and itself returns the statistic 0.0 and the
  probability 1.0.
\<close>

theorem C6_same_sequence:
  "2 \<le> length observed \<Longrightarrow> \<forall>x \<in> set observed. \<exists>r. x = Double r \<and> r \<noteq> 0 \<Longrightarrow>
   chi_squared_test observed observed = Inr (Double 0, Prob (Double 1))"
proof -
  assume len: "2 \<le> length observed"
    and nz: "\<forall>x \<in> set observed. \<exists>r. x = Double r \<and> r \<noteq> 0"
  let ?terms = "map pearson_term (zip observed observed)"
  have "\<forall>t \<in> set ?terms. t = Double 0"
  proof
    fix t assume "t \<in> set ?terms"
    then obtain x where "x \<in> set observed" "t = pearson_term (x, x)"
      by (auto simp: zip_same)
    with nz show "t = Double 0" by (auto simp: pearson_term_self)
  qed
  then have "np_sum ?terms = Double 0" by (rule np_sum_zero)
  then show ?thesis
    using len sums_disagree_same [of observed]
    by (simp add: chi_squared_test_equal_length chi2_sf_def)
qed

theorem C6_witness:
  "2 \<le> length [Double 301, Double 176] \<and>
   chi_squared_test [Double 301, Double 176] [Double 301, Double 176] =
     Inr (Double 0, Prob (Double 1))"
proof -
  have a: "2 \<le> length [Double 301, Double 176]" by simp
  have b: "\<forall>x \<in> set [Double 301, Double 176]. \<exists>r. x = Double r \<and> r \<noteq> 0" by simp
  from C6_same_sequence [OF a b] a show ?thesis by blast
qed

end
